theory Spec2Isabelle
  imports Main "HOL-Library.Word" "HOL-Library.Multiset"
begin

section \<open>Values, pointers and text\<close>

text \<open>
  The counter is a Go \<^verbatim>\<open>uint64\<close>. The handlers reach it through a \<^verbatim>\<open>*uint64\<close>, which can
  be nil; a mutex is reached through a \<^verbatim>\<open>*sync.Mutex\<close> and a channel value can be nil as
  well. Variables, mutexes and channels live in stores indexed by natural numbers, so that
  two handlers closing over the same variable really share it.
\<close>

type_synonym uint64 = "64 word"
type_synonym addr = nat
type_synonym ptr = "addr option"

text \<open>
  \<^verbatim>\<open>fmt.Sprintf\<close> with the verb \<^verbatim>\<open>%d\<close>, the only verb the program uses, applied to
  \<^verbatim>\<open>uint64\<close> arguments: the decimal digits of the argument, most significant first, no sign
  and no padding; every other byte of the format is copied. The program passes one
  argument for its one verb. A Go string is a sequence of bytes (UTF-8), as an Isabelle
  \<^typ>\<open>string\<close> is.
\<close>

definition digit :: "nat \<Rightarrow> char" where
  "digit d = char_of (48 + d)"

function decimal :: "nat \<Rightarrow> string" where
  "decimal n = (if n < 10 then [digit n] else decimal (n div 10) @ [digit (n mod 10)])"
  by pat_completeness auto
termination
  by (relation "measure id") auto

declare decimal.simps [simp del]

fun Sprintf :: "string \<Rightarrow> uint64 list \<Rightarrow> string" where
  "Sprintf [] args = []"
| "Sprintf [c] args = [c]"
| "Sprintf (c # d # rest) args =
     (if c = CHR ''%'' \<and> d = CHR ''d'' then
        (case args of
           [] \<Rightarrow> ''%!d(MISSING)'' @ Sprintf rest []
         | a # as \<Rightarrow> decimal (unat a) @ Sprintf rest as)
      else c # Sprintf (d # rest) args)"

text \<open>The format string of the three visit handlers (the Portuguese for "Hello! You had
  %d visits."), in UTF-8: the a with acute accent that ends its first word is the bytes
  C3 A1, the e with circumflex that ends its second word the bytes C3 AA.\<close>

definition visits_format :: string where
  "visits_format =
     ''Ol'' @ [CHR 0xC3, CHR 0xA1] @ ''! Voc'' @ [CHR 0xC3, CHR 0xAA] @ '' teve %d visitas.''"

text \<open>Reading a decimal numeral back (used to say what "the decimal rendering" means).\<close>

definition digit_val :: "char \<Rightarrow> nat" where
  "digit_val c = of_char c - 48"

definition parse_decimal :: "string \<Rightarrow> nat" where
  "parse_decimal cs = foldl (\<lambda>acc c. 10 * acc + digit_val c) 0 cs"

section \<open>The response writer\<close>

text \<open>
  The handlers only call \<^verbatim>\<open>io.WriteString(w, s)\<close>. The writer is the one the tests use,
  \<^verbatim>\<open>httptest.ResponseRecorder\<close>: a first write without an explicit \<^verbatim>\<open>WriteHeader\<close> fixes the
  status to 200, and every write appends to the body.
\<close>

record ResponseRecorder =
  Code :: nat
  Body :: string
  wroteHeader :: bool

definition NewRecorder :: ResponseRecorder where
  "NewRecorder = \<lparr>Code = 200, Body = [], wroteHeader = False\<rparr>"

definition WriteHeader :: "nat \<Rightarrow> ResponseRecorder \<Rightarrow> ResponseRecorder" where
  "WriteHeader code rw = (if wroteHeader rw then rw else rw\<lparr>Code := code, wroteHeader := True\<rparr>)"

definition WriteString :: "ResponseRecorder \<Rightarrow> string \<Rightarrow> ResponseRecorder" where
  "WriteString rw str =
     (let rw' = (if wroteHeader rw then rw else WriteHeader 200 rw)
      in rw'\<lparr>Body := Body rw' @ str\<rparr>)"

section \<open>Shared state and the statements of the handlers\<close>

record chan =
  buf :: "ptr list"
  cap :: nat
  closed :: bool

record world =
  heap :: "addr \<Rightarrow> uint64"
  mutexes :: "nat \<Rightarrow> bool"
  chans :: "nat \<Rightarrow> chan"

text \<open>The local variables of one running handler: \<^verbatim>\<open>visits\<close> (the pointer received by the
  channel handler), the value read by the first half of \<^verbatim>\<open>*visits++\<close>, \<^verbatim>\<open>current\<close>,
  \<^verbatim>\<open>message\<close> and the writer \<^verbatim>\<open>w\<close>.\<close>

record locals =
  visits_v :: ptr
  loaded :: uint64
  current :: uint64
  message :: string
  w :: ResponseRecorder

definition new_locals :: "ResponseRecorder \<Rightarrow> locals" where
  "new_locals rw = \<lparr>visits_v = None, loaded = 0, current = 0, message = [], w = rw\<rparr>"

datatype fault = NilDereference | SendOnClosedChannel | UnlockOfUnlockedMutex

datatype label =
    Acquire nat
  | Release nat
  | Receive nat ptr
  | Send nat ptr
  | Load addr uint64
  | Store addr uint64
  | AddFetch addr uint64
  | Format string
  | Reply string

text \<open>One statement either completes (with the event it performed, the new locals and the
  new shared state), panics, or cannot proceed yet (a locked mutex, an empty or a full
  channel).\<close>

datatype outcome = Next label locals world | Panic fault | Block

type_synonym action = "locals \<Rightarrow> world \<Rightarrow> outcome"

definition mu_Lock :: "nat option \<Rightarrow> action" where
  "mu_Lock mu l s =
     (case mu of
        None \<Rightarrow> Panic NilDereference
      | Some m \<Rightarrow>
          if mutexes s m then Block
          else Next (Acquire m) l (s\<lparr>mutexes := (mutexes s)(m := True)\<rparr>))"

definition mu_Unlock :: "nat option \<Rightarrow> action" where
  "mu_Unlock mu l s =
     (case mu of
        None \<Rightarrow> Panic NilDereference
      | Some m \<Rightarrow>
          if mutexes s m then Next (Release m) l (s\<lparr>mutexes := (mutexes s)(m := False)\<rparr>)
          else Panic UnlockOfUnlockedMutex)"

text \<open>\<^verbatim>\<open>*visits++\<close> is a read of the variable followed by a write of the value read plus
  one; the two halves are separate steps, so that another goroutine can run in between.\<close>

definition incr_load :: "ptr \<Rightarrow> action" where
  "incr_load p l s =
     (case p of
        None \<Rightarrow> Panic NilDereference
      | Some a \<Rightarrow> Next (Load a (heap s a)) (l\<lparr>loaded := heap s a\<rparr>) s)"

definition incr_store :: "ptr \<Rightarrow> action" where
  "incr_store p l s =
     (case p of
        None \<Rightarrow> Panic NilDereference
      | Some a \<Rightarrow> Next (Store a (loaded l + 1)) l (s\<lparr>heap := (heap s)(a := loaded l + 1)\<rparr>))"

text \<open>\<^verbatim>\<open>current := *visits\<close>\<close>

definition read_current :: "ptr \<Rightarrow> action" where
  "read_current p l s =
     (case p of
        None \<Rightarrow> Panic NilDereference
      | Some a \<Rightarrow> Next (Load a (heap s a)) (l\<lparr>current := heap s a\<rparr>) s)"

text \<open>\<^verbatim>\<open>current := atomic.AddUint64(visits, delta)\<close>: one indivisible step that adds and
  returns the new value.\<close>

definition AddUint64 :: "ptr \<Rightarrow> uint64 \<Rightarrow> action" where
  "AddUint64 p delta l s =
     (case p of
        None \<Rightarrow> Panic NilDereference
      | Some a \<Rightarrow>
          Next (AddFetch a (heap s a + delta)) (l\<lparr>current := heap s a + delta\<rparr>)
            (s\<lparr>heap := (heap s)(a := heap s a + delta)\<rparr>))"

text \<open>\<^verbatim>\<open>message := fmt.Sprintf(visits_format, current)\<close>\<close>

definition format_current :: action where
  "format_current l s =
     Next (Format (Sprintf visits_format [current l]))
       (l\<lparr>message := Sprintf visits_format [current l]\<rparr>) s"

text \<open>\<^verbatim>\<open>message := fmt.Sprintf(visits_format, *visits)\<close>, with the local
  pointer \<^verbatim>\<open>visits\<close> of the channel handler: the argument is read from the shared variable.\<close>

definition format_deref :: action where
  "format_deref l s =
     (case visits_v l of
        None \<Rightarrow> Panic NilDereference
      | Some a \<Rightarrow>
          Next (Format (Sprintf visits_format [heap s a]))
            (l\<lparr>message := Sprintf visits_format [heap s a]\<rparr>) s)"

text \<open>\<^verbatim>\<open>visits := <-ch\<close>: a nil channel blocks for ever; a buffered value is taken in FIFO
  order; a closed and drained channel yields the zero value, the nil pointer; an open and
  empty channel blocks.\<close>

definition chan_recv :: "nat option \<Rightarrow> action" where
  "chan_recv ch l s =
     (case ch of
        None \<Rightarrow> Block
      | Some c \<Rightarrow>
          (case buf (chans s c) of
             v # rest \<Rightarrow>
               Next (Receive c v) (l\<lparr>visits_v := v\<rparr>)
                 (s\<lparr>chans := (chans s)(c := (chans s c)\<lparr>buf := rest\<rparr>)\<rparr>)
           | [] \<Rightarrow>
               if closed (chans s c) then Next (Receive c None) (l\<lparr>visits_v := None\<rparr>) s
               else Block))"

text \<open>\<^verbatim>\<open>ch <- v\<close>: a nil channel blocks for ever; a closed channel panics; a channel with
  room in its buffer takes the value; a full one blocks.\<close>

definition chan_send :: "nat option \<Rightarrow> ptr \<Rightarrow> action" where
  "chan_send ch v l s =
     (case ch of
        None \<Rightarrow> Block
      | Some c \<Rightarrow>
          if closed (chans s c) then Panic SendOnClosedChannel
          else if length (buf (chans s c)) < cap (chans s c) then
            Next (Send c v) l (s\<lparr>chans := (chans s)(c := (chans s c)\<lparr>buf := buf (chans s c) @ [v]\<rparr>)\<rparr>)
          else Block)"

text \<open>\<^verbatim>\<open>io.WriteString(w, str)\<close>\<close>

definition io_WriteString :: "(locals \<Rightarrow> string) \<Rightarrow> action" where
  "io_WriteString str l s = Next (Reply (str l)) (l\<lparr>w := WriteString (w l) (str l)\<rparr>) s"

section \<open>The handlers\<close>

text \<open>A handler is a function of the writer and the request; its body is the sequence
  of its statements, in source order. The writer is the local \<^verbatim>\<open>w\<close>; no handler looks at the
  request.\<close>

record request =
  Method :: string
  Path :: string

type_synonym handler = "request \<Rightarrow> action list"

definition healthCheck :: handler where
  "healthCheck r = [io_WriteString (\<lambda>_. ''Hello, world!'' @ [CHR 0x0A])]"

definition visitWithMutex :: "ptr \<Rightarrow> nat option \<Rightarrow> handler" where
  "visitWithMutex visits mu r =
     [mu_Lock mu,
      incr_load visits,
      incr_store visits,
      read_current visits,
      mu_Unlock mu,
      format_current,
      io_WriteString message]"

definition visitWithAtomic :: "ptr \<Rightarrow> handler" where
  "visitWithAtomic visits r =
     [AddUint64 visits 1,
      format_current,
      io_WriteString message]"

definition visitWithChannel :: "nat option \<Rightarrow> handler" where
  "visitWithChannel ch r =
     [chan_recv ch,
      (\<lambda>l. incr_load (visits_v l) l),
      (\<lambda>l. incr_store (visits_v l) l),
      format_deref,
      (\<lambda>l. chan_send ch (visits_v l) l),
      io_WriteString message]"

section \<open>Running one call on its own\<close>

datatype result = Returned | Panicked fault | Blocked

text \<open>A call that runs with no other goroutine: the statements one after the other. A
  panic ends the call where it happens, with the shared state as it is at that point; a
  statement that cannot proceed never will, since nobody else runs.\<close>

fun run :: "action list \<Rightarrow> locals \<Rightarrow> world \<Rightarrow> result \<times> locals \<times> world \<times> label list" where
  "run [] l s = (Returned, l, s, [])"
| "run (a # as) l s =
     (case a l s of
        Next ev l' s' \<Rightarrow> (case run as l' s' of (r, l'', s'', evs) \<Rightarrow> (r, l'', s'', ev # evs))
      | Panic e \<Rightarrow> (Panicked e, l, s, [])
      | Block \<Rightarrow> (Blocked, l, s, []))"

type_synonym finished = "result \<times> locals \<times> world \<times> label list"

definition call :: "handler \<Rightarrow> ResponseRecorder \<Rightarrow> request \<Rightarrow> world \<Rightarrow> finished" where
  "call h rw r s = run (h r) (new_locals rw) s"

definition outcome_of :: "finished \<Rightarrow> result" where
  "outcome_of x = fst x"

definition response_of :: "finished \<Rightarrow> ResponseRecorder" where
  "response_of x = w (fst (snd x))"

definition world_of :: "finished \<Rightarrow> world" where
  "world_of x = fst (snd (snd x))"

definition locals_of :: "finished \<Rightarrow> locals" where
  "locals_of x = fst (snd x)"

definition events_of :: "finished \<Rightarrow> label list" where
  "events_of x = snd (snd (snd x))"

text \<open>The same call stopped after its first \<open>k\<close> statements: the state in the middle of
  the handler.\<close>

definition stopped_after :: "nat \<Rightarrow> handler \<Rightarrow> ResponseRecorder \<Rightarrow> request \<Rightarrow> world \<Rightarrow> finished" where
  "stopped_after k h rw r s = run (take k (h r)) (new_locals rw) s"

text \<open>A loop of sequential calls, each with a recorder of its own, as in the tests
  (\<^verbatim>\<open>for i := 1; i <= 5; i++ { w := httptest.NewRecorder(); handler(w, req) ... }\<close>): the
  recorders of the calls that returned, in order. A call that panics or blocks ends the
  loop.\<close>

fun calls :: "nat \<Rightarrow> handler \<Rightarrow> request \<Rightarrow> world \<Rightarrow> result \<times> ResponseRecorder list \<times> world" where
  "calls 0 h r s = (Returned, [], s)"
| "calls (Suc n) h r s =
     (case call h NewRecorder r s of
        (Returned, l, s', evs) \<Rightarrow>
          (case calls n h r s' of (res, rws, s'') \<Rightarrow> (res, w l # rws, s''))
      | (res, l, s', evs) \<Rightarrow> (res, [], s'))"

section \<open>Construction: the tests and \<^verbatim>\<open>main\<close>\<close>

text \<open>Go zero-initialises: a fresh \<^verbatim>\<open>uint64\<close> is 0 and a fresh \<^verbatim>\<open>sync.Mutex\<close> is unlocked.
  \<^verbatim>\<open>make(chan *uint64, n)\<close> gives an open, empty channel with room for \<open>n\<close> values.\<close>

definition zero_world :: world where
  "zero_world =
     \<lparr>heap = (\<lambda>_. 0), mutexes = (\<lambda>_. False), chans = (\<lambda>_. \<lparr>buf = [], cap = 0, closed = False\<rparr>)\<rparr>"

definition make_chan :: "nat \<Rightarrow> nat \<Rightarrow> world \<Rightarrow> world" where
  "make_chan c n s = s\<lparr>chans := (chans s)(c := \<lparr>buf = [], cap = n, closed = False\<rparr>)\<rparr>"

text \<open>\<^verbatim>\<open>main\<close>, lines 17 to 22: one variable \<^verbatim>\<open>visits\<close>, one channel of capacity 1 that
  receives \<^verbatim>\<open>&visits\<close>, one mutex. (The deferred \<^verbatim>\<open>close(ch)\<close> would run when \<^verbatim>\<open>main\<close>
  returns, which it does not while the server listens.)\<close>

definition visits_main :: addr where
  "visits_main = 0"

definition ch_main :: nat where
  "ch_main = 0"

definition mu_main :: nat where
  "mu_main = 0"

definition main_construct :: finished where
  "main_construct =
     run [chan_send (Some ch_main) (Some visits_main)] (new_locals NewRecorder)
       (make_chan ch_main 1 zero_world)"

definition main_world :: world where
  "main_world = world_of main_construct"

text \<open>\<^verbatim>\<open>main\<close>, lines 29 to 32: the four routes, all for the method GET. The three visit
  handlers are built from the same \<^verbatim>\<open>&visits\<close>.\<close>

definition mux :: "(string \<times> handler) list" where
  "mux =
     [(''/health-check'', healthCheck),
      (''/visit-with-mutex'', visitWithMutex (Some visits_main) (Some mu_main)),
      (''/visit-with-atomic'', visitWithAtomic (Some visits_main)),
      (''/visit-with-channel'', visitWithChannel (Some ch_main))]"

text \<open>Dispatch: the handler registered for the path of a GET request runs against a fresh
  writer; \<open>None\<close> when no handler of the program is registered for the request.\<close>

definition ServeHTTP :: "request \<Rightarrow> world \<Rightarrow> finished option" where
  "ServeHTTP r s =
     (if Method r = ''GET'' then map_option (\<lambda>h. call h NewRecorder r s) (map_of mux (Path r))
      else None)"

datatype strategy = Mutex | Atomic | Channel

text \<open>The handler of a strategy, built on the variable at address \<open>a\<close>, with the mutex
  \<open>m\<close> or the channel \<open>c\<close>.\<close>

fun visit :: "strategy \<Rightarrow> addr \<Rightarrow> nat \<Rightarrow> nat \<Rightarrow> handler" where
  "visit Mutex a m c = visitWithMutex (Some a) (Some m)"
| "visit Atomic a m c = visitWithAtomic (Some a)"
| "visit Channel a m c = visitWithChannel (Some c)"

text \<open>The shared state between two calls: the mutex is free; the channel is open and
  holds the pointer to the variable as its single token.\<close>

fun idle :: "strategy \<Rightarrow> addr \<Rightarrow> nat \<Rightarrow> nat \<Rightarrow> world \<Rightarrow> bool" where
  "idle Mutex a m c s = (\<not> mutexes s m)"
| "idle Atomic a m c s = True"
| "idle Channel a m c s =
     (buf (chans s c) = [Some a] \<and> cap (chans s c) = 1 \<and> \<not> closed (chans s c))"

text \<open>The construction of the tests, per strategy: a fresh variable (at address 0), a
  fresh mutex, and for the channel strategy
  \<^verbatim>\<open>ch := make(chan *uint64, 1); ch <- &visits\<close>.\<close>

definition test_world :: "strategy \<Rightarrow> world" where
  "test_world strat =
     (case strat of
        Mutex \<Rightarrow> zero_world
      | Atomic \<Rightarrow> zero_world
      | Channel \<Rightarrow>
          world_of (run [chan_send (Some 0) (Some 0)] (new_locals NewRecorder) (make_chan 0 1 zero_world)))"

text \<open>The text of a visit response, as the specification writes it: the fixed words around
  the decimal numeral of the count.\<close>

definition visit_text :: "nat \<Rightarrow> string" where
  "visit_text n =
     ''Ol'' @ [CHR 0xC3, CHR 0xA1] @ ''! Voc'' @ [CHR 0xC3, CHR 0xAA] @ '' teve '' @ decimal n @ '' visitas.''"

text \<open>The events of a trace that write the counter.\<close>

fun is_write :: "label \<Rightarrow> bool" where
  "is_write (Store a v) = True"
| "is_write (AddFetch a v) = True"
| "is_write ev = False"

text \<open>The service between two requests: the mutex of \<^verbatim>\<open>main\<close> is free and its channel
  holds \<^verbatim>\<open>&visits\<close>.\<close>

definition service_idle :: "world \<Rightarrow> bool" where
  "service_idle s =
     (\<not> mutexes s mu_main \<and> buf (chans s ch_main) = [Some visits_main] \<and>
      cap (chans s ch_main) = 1 \<and> \<not> closed (chans s ch_main))"

definition visit_paths :: "string list" where
  "visit_paths = [''/visit-with-mutex'', ''/visit-with-atomic'', ''/visit-with-channel'']"

definition GET :: "string \<Rightarrow> request" where
  "GET p = \<lparr>Method = ''GET'', Path = p\<rparr>"

section \<open>A call among other goroutines\<close>

text \<open>What other goroutines do to the shared state while one call runs: \<open>env k\<close> is their
  combined effect between the call's statements \<open>k - 1\<close> and \<open>k\<close> (statements are counted
  from 0). The undisturbed call is the one with \<open>env k = id\<close> for every \<open>k\<close>.\<close>

fun run_env :: "(nat \<Rightarrow> world \<Rightarrow> world) \<Rightarrow> nat \<Rightarrow> action list \<Rightarrow> locals \<Rightarrow> world \<Rightarrow> finished" where
  "run_env env k [] l s = (Returned, l, s, [])"
| "run_env env k (a # as) l s =
     (case a l (env k s) of
        Next ev l' s' \<Rightarrow>
          (case run_env env (Suc k) as l' s' of (r, l'', s'', evs) \<Rightarrow> (r, l'', s'', ev # evs))
      | Panic e \<Rightarrow> (Panicked e, l, env k s, [])
      | Block \<Rightarrow> (Blocked, l, env k s, []))"

definition call_env :: "(nat \<Rightarrow> world \<Rightarrow> world) \<Rightarrow> handler \<Rightarrow> ResponseRecorder \<Rightarrow> request \<Rightarrow> world \<Rightarrow> finished" where
  "call_env env h rw r s = run_env env 0 (h r) (new_locals rw) s"

text \<open>The position, in the body of each handler, of the last statement that reads the
  shared counter for the message: \<^verbatim>\<open>current := *visits\<close> in the mutex handler (statement 3),
  \<^verbatim>\<open>atomic.AddUint64\<close> in the atomic handler (statement 0), and the \<^verbatim>\<open>fmt.Sprintf\<close> itself,
  whose argument is \<^verbatim>\<open>*visits\<close>, in the channel handler (statement 3).\<close>

fun last_read :: "strategy \<Rightarrow> nat" where
  "last_read Mutex = 3"
| "last_read Atomic = 0"
| "last_read Channel = 3"

section \<open>Concurrent calls\<close>

text \<open>
  The concurrent tests start \<open>G\<close> goroutines that all call the same handler, each with a
  recorder of its own, and wait for all of them:
  \<^verbatim>\<open>for i := 0; i < numGoroutines; i++ { wg.Add(1); go func() { defer wg.Done(); ...
  handler(w, req) }() }; wg.Wait()\<close>.
  A goroutine is a position in the handler body, its locals, and the panic that ended it,
  if any. The scheduler picks goroutines in any order: a schedule is the list of its
  picks. A picked goroutine executes its next statement if that statement can proceed; a
  pick of a goroutine that has finished, panicked, or is waiting for the mutex or the
  channel changes nothing. Statements of different goroutines interleave, the two halves
  of \<^verbatim>\<open>*visits++\<close> included; each statement sees the writes of all earlier ones (the
  programs of the tests are free of data races, for which Go guarantees this).
\<close>

record goroutine =
  pc :: nat
  vars :: locals
  fate :: "fault option"

record config =
  threads :: "goroutine list"
  shared :: world

definition spawn :: "nat \<Rightarrow> world \<Rightarrow> config" where
  "spawn G s =
     \<lparr>threads = replicate G \<lparr>pc = 0, vars = new_locals NewRecorder, fate = None\<rparr>, shared = s\<rparr>"

definition sched_step :: "action list \<Rightarrow> config \<Rightarrow> nat \<Rightarrow> config" where
  "sched_step body cfg t =
     (if t < length (threads cfg) then
        (let th = threads cfg ! t in
         if fate th \<noteq> None \<or> length body \<le> pc th then cfg
         else
           (case (body ! pc th) (vars th) (shared cfg) of
              Next ev l' s' \<Rightarrow>
                \<lparr>threads = (threads cfg)[t := th\<lparr>pc := Suc (pc th), vars := l'\<rparr>], shared = s'\<rparr>
            | Panic e \<Rightarrow> cfg\<lparr>threads := (threads cfg)[t := th\<lparr>fate := Some e\<rparr>]\<rparr>
            | Block \<Rightarrow> cfg))
      else cfg)"

definition exec :: "action list \<Rightarrow> nat list \<Rightarrow> config \<Rightarrow> config" where
  "exec body sched cfg = foldl (sched_step body) cfg sched"

text \<open>A goroutine has finished when it has executed the whole body without a panic;
  \<^verbatim>\<open>wg.Wait()\<close> returns when all have.\<close>

definition finished_goroutine :: "action list \<Rightarrow> goroutine \<Rightarrow> bool" where
  "finished_goroutine body th = (pc th = length body \<and> fate th = None)"

definition all_done :: "action list \<Rightarrow> config \<Rightarrow> bool" where
  "all_done body cfg = list_all (finished_goroutine body) (threads cfg)"

text \<open>A goroutine can move when a pick of it executes a statement.\<close>

definition can_move :: "action list \<Rightarrow> config \<Rightarrow> nat \<Rightarrow> bool" where
  "can_move body cfg t =
     (t < length (threads cfg) \<and> fate (threads cfg ! t) = None \<and>
      pc (threads cfg ! t) < length body \<and>
      (case (body ! pc (threads cfg ! t)) (vars (threads cfg ! t)) (shared cfg) of
         Next ev l' s' \<Rightarrow> True
       | Panic e \<Rightarrow> False
       | Block \<Rightarrow> False))"

text \<open>The bodies of the responses, one per goroutine.\<close>

definition bodies :: "config \<Rightarrow> string list" where
  "bodies cfg = map (\<lambda>th. Body (w (vars th))) (threads cfg)"

section \<open>Invariants of the concurrent executions\<close>

text \<open>How many goroutines have executed at least their first \<open>n\<close> statements, and the
  values (tickets) held by those goroutines.\<close>

definition reached :: "nat \<Rightarrow> goroutine list \<Rightarrow> nat" where
  "reached n ths = length (filter (\<lambda>th. n \<le> pc th) ths)"

definition tickets :: "(goroutine \<Rightarrow> 'a) \<Rightarrow> nat \<Rightarrow> goroutine list \<Rightarrow> 'a multiset" where
  "tickets f n ths = mset (map f (filter (\<lambda>th. n \<le> pc th) ths))"

text \<open>The work done so far: the sum of the positions.\<close>

definition total_pc :: "config \<Rightarrow> nat" where
  "total_pc cfg = sum_list (map pc (threads cfg))"

text \<open>
  The atomic handler (statements 0 to 2). The counter equals the number of goroutines
  that have executed the atomic add, and these goroutines hold in \<^verbatim>\<open>current\<close> exactly the
  values from 1 to that number, each once. A goroutine that has formatted holds the
  message of its \<^verbatim>\<open>current\<close>; one that has replied has written exactly that message.
\<close>

definition atomic_local :: "goroutine \<Rightarrow> bool" where
  "atomic_local th =
     (fate th = None \<and> pc th \<le> 3 \<and>
      (2 \<le> pc th \<longrightarrow> message (vars th) = Sprintf visits_format [current (vars th)]) \<and>
      w (vars th) =
        (if pc th = 3 then WriteString NewRecorder (message (vars th)) else NewRecorder))"

definition atomic_inv :: "config \<Rightarrow> bool" where
  "atomic_inv cfg =
     (length (threads cfg) < 2 ^ 64 \<and>
      unat (heap (shared cfg) 0) = reached 1 (threads cfg) \<and>
      tickets (\<lambda>th. unat (current (vars th))) 1 (threads cfg)
        = mset [1..<Suc (reached 1 (threads cfg))] \<and>
      (\<forall>th\<in>set (threads cfg). atomic_local th))"

text \<open>
  The mutex handler (statements 0 to 6). The mutex is locked exactly when one goroutine
  is between \<^verbatim>\<open>Lock\<close> and \<^verbatim>\<open>Unlock\<close> (positions 1 to 4), and there is never more than one.
  The counter equals the number of goroutines that have executed the write of
  \<^verbatim>\<open>*visits++\<close>; a goroutine between the read and the write holds the current value of the
  counter; the goroutines that have read \<^verbatim>\<open>current\<close> hold exactly the values from 1 to their
  number, each once.
\<close>

definition mutex_local :: "goroutine \<Rightarrow> bool" where
  "mutex_local th =
     (fate th = None \<and> pc th \<le> 7 \<and>
      (6 \<le> pc th \<longrightarrow> message (vars th) = Sprintf visits_format [current (vars th)]) \<and>
      w (vars th) =
        (if pc th = 7 then WriteString NewRecorder (message (vars th)) else NewRecorder))"

definition mutex_inv :: "config \<Rightarrow> bool" where
  "mutex_inv cfg =
     (length (threads cfg) < 2 ^ 64 \<and>
      reached 1 (threads cfg) = reached 5 (threads cfg) + (if mutexes (shared cfg) 0 then 1 else 0) \<and>
      unat (heap (shared cfg) 0) = reached 3 (threads cfg) \<and>
      tickets (\<lambda>th. unat (current (vars th))) 4 (threads cfg)
        = mset [1..<Suc (reached 4 (threads cfg))] \<and>
      (\<forall>th\<in>set (threads cfg). mutex_local th) \<and>
      (\<forall>th\<in>set (threads cfg). pc th = 2 \<longrightarrow> loaded (vars th) = heap (shared cfg) 0))"

text \<open>
  The channel handler (statements 0 to 5). The channel is open, of capacity 1, and holds
  the pointer exactly when no goroutine is between the receive and the send (positions 1
  to 4); there is never more than one such goroutine, and it holds the pointer. The
  counter equals the number of goroutines that have executed the write of \<^verbatim>\<open>*visits++\<close>;
  the goroutines that have formatted hold exactly the messages of the values from 1 to
  their number, each once.
\<close>

definition channel_local :: "goroutine \<Rightarrow> bool" where
  "channel_local th =
     (fate th = None \<and> pc th \<le> 6 \<and>
      (1 \<le> pc th \<and> pc th \<le> 4 \<longrightarrow> visits_v (vars th) = Some 0) \<and>
      w (vars th) =
        (if pc th = 6 then WriteString NewRecorder (message (vars th)) else NewRecorder))"

definition channel_inv :: "config \<Rightarrow> bool" where
  "channel_inv cfg =
     (length (threads cfg) < 2 ^ 64 \<and>
      cap (chans (shared cfg) 0) = 1 \<and> \<not> closed (chans (shared cfg) 0) \<and>
      reached 1 (threads cfg) \<le> Suc (reached 5 (threads cfg)) \<and>
      buf (chans (shared cfg) 0)
        = (if reached 1 (threads cfg) = reached 5 (threads cfg) then [Some 0] else []) \<and>
      unat (heap (shared cfg) 0) = reached 3 (threads cfg) \<and>
      tickets (\<lambda>th. message (vars th)) 4 (threads cfg)
        = mset (map visit_text [1..<Suc (reached 4 (threads cfg))]) \<and>
      (\<forall>th\<in>set (threads cfg). channel_local th) \<and>
      (\<forall>th\<in>set (threads cfg). pc th = 2 \<longrightarrow> loaded (vars th) = heap (shared cfg) 0))"

fun visits_inv :: "strategy \<Rightarrow> config \<Rightarrow> bool" where
  "visits_inv Mutex = mutex_inv"
| "visits_inv Atomic = atomic_inv"
| "visits_inv Channel = channel_inv"

section \<open>Properties\<close>

subsection \<open>What one undisturbed call does\<close>

lemma Sprintf_visits: "Sprintf visits_format [n] = visit_text (unat n)"
  by (simp add: visits_format_def visit_text_def)

lemma call_healthCheck:
  "call healthCheck NewRecorder r s =
     (Returned,
      (new_locals NewRecorder)\<lparr>w := \<lparr>Code = 200, Body = ''Hello, world!'' @ [CHR 0x0A], wroteHeader = True\<rparr>\<rparr>,
      s, [Reply (''Hello, world!'' @ [CHR 0x0A])])"
  by (simp add: call_def healthCheck_def io_WriteString_def WriteString_def WriteHeader_def
      NewRecorder_def new_locals_def)

lemma WriteString_NewRecorder:
  "WriteString NewRecorder str = \<lparr>Code = 200, Body = str, wroteHeader = True\<rparr>"
  by (simp add: WriteString_def WriteHeader_def NewRecorder_def)

lemma call_visitWithMutex:
  assumes "\<not> mutexes s m"
  shows "call (visitWithMutex (Some a) (Some m)) rw r s =
     (Returned,
      \<lparr>visits_v = None, loaded = heap s a, current = heap s a + 1,
       message = Sprintf visits_format [heap s a + 1],
       w = WriteString rw (Sprintf visits_format [heap s a + 1])\<rparr>,
      s\<lparr>heap := (heap s)(a := heap s a + 1)\<rparr>,
      [Acquire m, Load a (heap s a), Store a (heap s a + 1), Load a (heap s a + 1), Release m,
       Format (Sprintf visits_format [heap s a + 1]), Reply (Sprintf visits_format [heap s a + 1])])"
  using assms
  by (simp add: call_def visitWithMutex_def mu_Lock_def incr_load_def incr_store_def read_current_def
      mu_Unlock_def format_current_def io_WriteString_def new_locals_def fun_upd_idem)

lemma call_visitWithAtomic:
  "call (visitWithAtomic (Some a)) rw r s =
     (Returned,
      \<lparr>visits_v = None, loaded = 0, current = heap s a + 1,
       message = Sprintf visits_format [heap s a + 1],
       w = WriteString rw (Sprintf visits_format [heap s a + 1])\<rparr>,
      s\<lparr>heap := (heap s)(a := heap s a + 1)\<rparr>,
      [AddFetch a (heap s a + 1),
       Format (Sprintf visits_format [heap s a + 1]), Reply (Sprintf visits_format [heap s a + 1])])"
  by (simp add: call_def visitWithAtomic_def AddUint64_def format_current_def io_WriteString_def
      new_locals_def)

lemma call_visitWithChannel:
  assumes "buf (chans s c) = [Some a]" "cap (chans s c) = 1" "\<not> closed (chans s c)"
  shows "call (visitWithChannel (Some c)) rw r s =
     (Returned,
      \<lparr>visits_v = Some a, loaded = heap s a, current = 0,
       message = Sprintf visits_format [heap s a + 1],
       w = WriteString rw (Sprintf visits_format [heap s a + 1])\<rparr>,
      s\<lparr>heap := (heap s)(a := heap s a + 1)\<rparr>,
      [Receive c (Some a), Load a (heap s a), Store a (heap s a + 1),
       Format (Sprintf visits_format [heap s a + 1]), Send c (Some a),
       Reply (Sprintf visits_format [heap s a + 1])])"
proof -
  have "(chans s)(c := (chans s c)\<lparr>buf := [Some a]\<rparr>) = chans s"
    using assms(1) by (auto simp: fun_eq_iff)
  then show ?thesis
    using assms
    by (simp add: call_def visitWithChannel_def chan_recv_def incr_load_def incr_store_def
        format_deref_def chan_send_def io_WriteString_def new_locals_def)
qed

lemma call_visit:
  assumes "idle strat a m c s"
  shows "\<exists>l evs. call (visit strat a m c) rw r s =
           (Returned, l, s\<lparr>heap := (heap s)(a := heap s a + 1)\<rparr>, evs) \<and>
         w l = WriteString rw (Sprintf visits_format [heap s a + 1])"
  using assms
  by (cases strat) (simp_all add: call_visitWithMutex call_visitWithAtomic call_visitWithChannel)

lemma idle_heap_update: "idle strat a m c (s\<lparr>heap := h\<rparr>) = idle strat a m c s"
  by (cases strat) simp_all

lemma idle_test_world: "idle strat 0 0 0 (test_world strat)"
  by (cases strat)
     (simp_all add: test_world_def zero_world_def make_chan_def chan_send_def world_of_def
        new_locals_def)

lemma heap_test_world: "heap (test_world strat) a = 0"
  by (cases strat)
     (simp_all add: test_world_def zero_world_def make_chan_def chan_send_def world_of_def
        new_locals_def)

lemma calls_visit:
  "idle strat a m c s \<Longrightarrow>
   calls n (visit strat a m c) r s =
     (Returned,
      map (\<lambda>i. WriteString NewRecorder (Sprintf visits_format [heap s a + of_nat i])) [1..<Suc n],
      s\<lparr>heap := (heap s)(a := heap s a + of_nat n)\<rparr>)"
proof (induction n arbitrary: s)
  case 0
  then show ?case by simp
next
  case (Suc n)
  let ?s1 = "s\<lparr>heap := (heap s)(a := heap s a + 1)\<rparr>"
  obtain l evs where c: "call (visit strat a m c) NewRecorder r s = (Returned, l, ?s1, evs)"
    and wl: "w l = WriteString NewRecorder (Sprintf visits_format [heap s a + 1])"
    using call_visit [OF Suc.prems] by blast
  have i1: "idle strat a m c ?s1"
    using Suc.prems by (simp add: idle_heap_update)
  have shift: "map (\<lambda>i. WriteString NewRecorder (Sprintf visits_format [heap s a + 1 + of_nat i])) [1..<Suc n]
      = map (\<lambda>i. WriteString NewRecorder (Sprintf visits_format [heap s a + of_nat i])) [2..<Suc (Suc n)]"
  proof -
    have "[2..<Suc (Suc n)] = map Suc [1..<Suc n]"
      by (simp add: map_Suc_upt numeral_2_eq_2 del: upt_Suc)
    then show ?thesis by (simp add: comp_def ac_simps del: upt_Suc)
  qed
  have ws: "?s1\<lparr>heap := (heap ?s1)(a := heap ?s1 a + of_nat n)\<rparr>
      = s\<lparr>heap := (heap s)(a := heap s a + of_nat (Suc n))\<rparr>"
    by (simp add: ac_simps)
  have hs1: "heap ?s1 a = heap s a + 1"
    by simp
  have ih: "calls n (visit strat a m c) r ?s1 =
     (Returned,
      map (\<lambda>i. WriteString NewRecorder (Sprintf visits_format [heap s a + of_nat i])) [2..<Suc (Suc n)],
      s\<lparr>heap := (heap s)(a := heap s a + of_nat (Suc n))\<rparr>)"
    by (rule Suc.IH [OF i1, unfolded ws, unfolded hs1 shift])
  have step: "calls (Suc n) (visit strat a m c) r s =
     (Returned,
      w l # map (\<lambda>i. WriteString NewRecorder (Sprintf visits_format [heap s a + of_nat i])) [2..<Suc (Suc n)],
      s\<lparr>heap := (heap s)(a := heap s a + of_nat (Suc n))\<rparr>)"
    by (simp only: calls.simps c ih result.case prod.case)
  have u: "[1..<Suc (Suc n)] = 1 # [2..<Suc (Suc n)]"
    by (simp add: upt_conv_Cons numeral_2_eq_2 del: upt_Suc)
  show ?case
    unfolding step wl u by (simp only: list.map of_nat_1)
qed

subsection \<open>Decimal numerals\<close>

lemma digit_val_digit: "d < 10 \<Longrightarrow> digit_val (digit d) = d"
  by (simp add: digit_val_def digit_def)

lemma parse_decimal_snoc: "parse_decimal (cs @ [c]) = 10 * parse_decimal cs + digit_val c"
  by (simp add: parse_decimal_def)

lemma parse_decimal_decimal: "parse_decimal (decimal n) = n"
proof (induction n rule: decimal.induct)
  case (1 n)
  show ?case
  proof (cases "n < 10")
    case True
    then show ?thesis
      by (subst decimal.simps) (simp add: parse_decimal_def digit_val_digit)
  next
    case False
    then have "parse_decimal (decimal (n div 10)) = n div 10"
      using "1.IH" by simp
    with False show ?thesis
      by (subst decimal.simps) (simp add: parse_decimal_snoc digit_val_digit)
  qed
qed

lemma decimal_inj: "decimal m = decimal n \<Longrightarrow> m = n"
  by (metis parse_decimal_decimal)

lemma visit_text_inj: "visit_text m = visit_text n \<Longrightarrow> m = n"
  by (simp add: visit_text_def decimal_inj)

section \<open>The health check\<close>

text \<open>
  Claim C7. For every request and whatever the shared state, \<^verbatim>\<open>healthCheck\<close> called with a
  fresh writer returns, the status is 200, the body is exactly \<^verbatim>\<open>"Hello, world!\n"\<close> (14
  bytes, the last one the newline), the shared state (counter, mutex, channel) is left as
  it was, and the only thing the call does is that one write.
\<close>

theorem healthCheck_response:
  "outcome_of (call healthCheck NewRecorder r s) = Returned \<and>
   Code (response_of (call healthCheck NewRecorder r s)) = 200 \<and>
   Body (response_of (call healthCheck NewRecorder r s)) = ''Hello, world!'' @ [CHR 0x0A] \<and>
   length (Body (response_of (call healthCheck NewRecorder r s))) = 14 \<and>
   world_of (call healthCheck NewRecorder r s) = s \<and>
   events_of (call healthCheck NewRecorder r s) = [Reply (''Hello, world!'' @ [CHR 0x0A])]"
  by (simp add: call_healthCheck outcome_of_def response_of_def world_of_def events_of_def)

section \<open>Sequential calls\<close>

lemma unat_of_nat64: "n < 2 ^ 64 \<Longrightarrow> unat (of_nat n :: uint64) = n"
  by (simp add: unat_of_nat)



text \<open>
  Claim C9. The increment is not idempotent. For each strategy and every value \<open>v\<close> of the
  counter (in a state in which a call can run: the mutex free, the token in the channel),
  two calls in succession both return, the first response embeds \<open>v + 1\<close> and the second
  \<open>v + 2\<close>, and the counter ends at \<open>v + 2\<close>, which differs from \<open>v + 1\<close>, the value one call
  leaves. The arithmetic is that of \<^verbatim>\<open>uint64\<close>.
\<close>

theorem increment_twice:
  "idle strat a m c s \<Longrightarrow>
   (case calls 2 (visit strat a m c) r s of
      (res, rws, s') \<Rightarrow>
        res = Returned \<and>
        map Body rws = [visit_text (unat (heap s a + 1)), visit_text (unat (heap s a + 2))] \<and>
        heap s' a = heap s a + 2 \<and>
        heap s' a \<noteq> heap s a + 1 \<and>
        heap s' a \<noteq> heap (world_of (call (visit strat a m c) NewRecorder r s)) a)"
proof -
  assume i: "idle strat a m c s"
  have c: "calls 2 (visit strat a m c) r s =
     (Returned,
      map (\<lambda>i. WriteString NewRecorder (Sprintf visits_format [heap s a + of_nat i])) [1..<Suc 2],
      s\<lparr>heap := (heap s)(a := heap s a + of_nat 2)\<rparr>)"
    by (rule calls_visit [OF i])
  obtain l evs where k: "call (visit strat a m c) NewRecorder r s =
           (Returned, l, s\<lparr>heap := (heap s)(a := heap s a + 1)\<rparr>, evs)"
    using call_visit [OF i] by blast
  have u: "[1..<Suc 2] = [1, 2]"
    by (simp add: upt_conv_Cons)
  show ?thesis
    unfolding c k u
    by (simp add: WriteString_NewRecorder Sprintf_visits world_of_def)
qed

theorem increment_twice_witness:
  "idle Channel 0 0 0 (test_world Channel) \<and>
   (case calls 2 (visit Channel 0 0 0) \<lparr>Method = ''GET'', Path = ''/visit-with-channel''\<rparr> (test_world Channel) of
      (res, rws, s') \<Rightarrow>
        res = Returned \<and> map Body rws = [visit_text 1, visit_text 2] \<and> heap s' 0 = 2)"
  using increment_twice [OF idle_test_world, of Channel "\<lparr>Method = ''GET'', Path = ''/visit-with-channel''\<rparr>"]
    idle_test_world [of Channel]
  by (simp add: heap_test_world split: prod.splits)

section \<open>The counter is a \<^verbatim>\<open>uint64\<close>\<close>

lemma calls_visit_heap:
  "idle strat a m c s \<Longrightarrow> heap (snd (snd (calls n (visit strat a m c) r s))) a = heap s a + of_nat n"
  by (simp add: calls_visit)

text \<open>
  Claim C8, as stated, fails: the value is not non-decreasing across every sequence of
  calls. A call on a counter that holds \<open>2^64 - 1\<close> leaves it at 0; and from a fresh counter,
  the value after \<open>2^64\<close> calls (0) is below the value after \<open>2^64 - 1\<close> calls.
\<close>

theorem counter_wraps_around:
  "heap (world_of (call (visitWithAtomic (Some 0)) NewRecorder (GET ''/visit-with-atomic'')
           (zero_world\<lparr>heap := (\<lambda>_. 0)(0 := 18446744073709551615)\<rparr>))) 0
     < heap (zero_world\<lparr>heap := (\<lambda>_. 0)(0 := 18446744073709551615)\<rparr>) 0 \<and>
   heap (snd (snd (calls 18446744073709551616 (visit Atomic 0 0 0) (GET ''/visit-with-atomic'')
           (test_world Atomic)))) 0
     < heap (snd (snd (calls 18446744073709551615 (visit Atomic 0 0 0) (GET ''/visit-with-atomic'')
           (test_world Atomic)))) 0"
proof -
  have i: "idle Atomic 0 0 0 (test_world Atomic)"
    by (rule idle_test_world)
  show ?thesis
    unfolding calls_visit_heap [OF i] heap_test_world
    by (simp add: call_visitWithAtomic world_of_def)
qed

lemma call_visit_events:
  assumes "idle strat a m c s"
  shows "length (filter is_write (events_of (call (visit strat a m c) rw r s))) = 1"
  using assms
  by (cases strat)
     (simp_all add: call_visitWithMutex call_visitWithAtomic call_visitWithChannel events_of_def)

text \<open>
  Claim C8, amended. For each strategy, a call in a state in which it can run returns,
  writes the counter exactly once and leaves it at the old value plus one modulo \<open>2^64\<close>,
  every other variable as it was. The value grows unless it was \<open>2^64 - 1\<close>, in which case
  it wraps to 0; so from a fresh counter the value is non-decreasing over every sequence
  of fewer than \<open>2^64\<close> calls.
\<close>

theorem increment_adds_one:
  assumes "idle strat a m c s"
  shows "outcome_of (call (visit strat a m c) rw r s) = Returned \<and>
     heap (world_of (call (visit strat a m c) rw r s)) a = heap s a + 1 \<and>
     unat (heap (world_of (call (visit strat a m c) rw r s)) a) = (unat (heap s a) + 1) mod 2 ^ 64 \<and>
     (\<forall>b. b \<noteq> a \<longrightarrow> heap (world_of (call (visit strat a m c) rw r s)) b = heap s b) \<and>
     length (filter is_write (events_of (call (visit strat a m c) rw r s))) = 1 \<and>
     (unat (heap s a) + 1 < 2 ^ 64 \<longrightarrow>
        heap s a < heap (world_of (call (visit strat a m c) rw r s)) a) \<and>
     (unat (heap s a) + 1 = 2 ^ 64 \<longrightarrow>
        heap (world_of (call (visit strat a m c) rw r s)) a = 0) \<and>
     (\<forall>j k. j \<le> k \<and> k < 2 ^ 64 \<longrightarrow>
        heap (snd (snd (calls j (visit strat 0 0 0) r (test_world strat)))) 0
          \<le> heap (snd (snd (calls k (visit strat 0 0 0) r (test_world strat)))) 0)"
proof -
  obtain l evs where c: "call (visit strat a m c) rw r s =
           (Returned, l, s\<lparr>heap := (heap s)(a := heap s a + 1)\<rparr>, evs)"
    using call_visit [OF assms] by blast
  have u: "unat (heap s a + 1) = (unat (heap s a) + 1) mod 2 ^ 64"
    by (simp add: unat_word_ariths)
  have lt: "heap s a < heap s a + 1" if "unat (heap s a) + 1 < 2 ^ 64"
    using that u by (simp add: word_less_nat_alt)
  have z: "heap s a + 1 = 0" if "unat (heap s a) + 1 = 2 ^ 64"
  proof -
    have "unat (heap s a + 1) = 0" using that u by simp
    then show ?thesis by (simp add: unat_eq_0)
  qed
  have mono: "heap (snd (snd (calls j (visit strat 0 0 0) r (test_world strat)))) 0
          \<le> heap (snd (snd (calls k (visit strat 0 0 0) r (test_world strat)))) 0"
    if "j \<le> k" "k < 2 ^ 64" for j k
  proof -
    have "unat (of_nat j :: uint64) = j" "unat (of_nat k :: uint64) = k"
      using that by (simp_all add: unat_of_nat64)
    then have "(of_nat j :: uint64) \<le> of_nat k"
      using that by (simp add: word_le_nat_alt)
    then show ?thesis
      by (simp add: calls_visit_heap [OF idle_test_world] heap_test_world)
  qed
  show ?thesis
    using u lt z mono call_visit_events [OF assms, of rw r]
    unfolding c by (simp add: outcome_of_def world_of_def)
qed

theorem increment_adds_one_witness:
  "idle Mutex 0 0 0 (test_world Mutex) \<and>
   unat (heap (test_world Mutex) 0) + 1 < 2 ^ 64 \<and>
   heap (test_world Mutex) 0 < heap (world_of (call (visit Mutex 0 0 0) NewRecorder (GET ''/visit-with-mutex'') (test_world Mutex))) 0 \<and>
   idle Atomic 0 0 0 (zero_world\<lparr>heap := (\<lambda>_. 0)(0 := 18446744073709551615)\<rparr>) \<and>
   unat (heap (zero_world\<lparr>heap := (\<lambda>_. 0)(0 := 18446744073709551615)\<rparr>) 0) + 1 = 2 ^ 64 \<and>
   heap (world_of (call (visit Atomic 0 0 0) NewRecorder (GET ''/visit-with-atomic'')
      (zero_world\<lparr>heap := (\<lambda>_. 0)(0 := 18446744073709551615)\<rparr>))) 0 = 0 \<and>
   (2::nat) \<le> 3 \<and> (3::nat) < 2 ^ 64 \<and>
   heap (snd (snd (calls 2 (visit Mutex 0 0 0) (GET ''/visit-with-mutex'') (test_world Mutex)))) 0
     \<le> heap (snd (snd (calls 3 (visit Mutex 0 0 0) (GET ''/visit-with-mutex'') (test_world Mutex)))) 0"
proof -
  have i: "idle Mutex 0 0 0 (test_world Mutex)"
    by (rule idle_test_world)
  have h: "unat (heap (test_world Mutex) 0) + 1 < 2 ^ 64"
    by (simp add: heap_test_world)
  have i2: "idle Atomic 0 0 0 (zero_world\<lparr>heap := (\<lambda>_. 0)(0 := 18446744073709551615)\<rparr>)"
    by simp
  have h2: "unat (heap (zero_world\<lparr>heap := (\<lambda>_. 0)(0 := 18446744073709551615)\<rparr>) 0) + 1 = 2 ^ 64"
    by simp
  have b: "(2::nat) \<le> 3 \<and> (3::nat) < 2 ^ 64"
    by simp
  show ?thesis
    using increment_adds_one [OF i, of NewRecorder "GET ''/visit-with-mutex''"]
      increment_adds_one [OF i2, of NewRecorder "GET ''/visit-with-atomic''"] i h i2 h2 b
    by blast
qed

section \<open>The mutex and a panic\<close>

text \<open>
  Claim C6, as stated, fails: \<^verbatim>\<open>mu.Unlock()\<close> is an ordinary statement after the critical
  section, not a deferred one. The handler built on a nil counter pointer,
  \<^verbatim>\<open>visitWithMutex(nil, &mu)\<close>, acquires the mutex, panics at \<^verbatim>\<open>*visits++\<close> inside the critical
  section, and the mutex, free before the call, is locked after it.
\<close>

theorem mutex_left_locked_by_panic:
  "outcome_of (call (visitWithMutex None (Some 0)) NewRecorder (GET ''/visit-with-mutex'') zero_world)
     = Panicked NilDereference \<and>
   events_of (call (visitWithMutex None (Some 0)) NewRecorder (GET ''/visit-with-mutex'') zero_world)
     = [Acquire 0] \<and>
   \<not> mutexes zero_world 0 \<and>
   mutexes (world_of (call (visitWithMutex None (Some 0)) NewRecorder (GET ''/visit-with-mutex'') zero_world)) 0"
  by (simp add: call_def visitWithMutex_def mu_Lock_def incr_load_def zero_world_def
      outcome_of_def events_of_def world_of_def)

text \<open>The mutex handler on any arguments, before its critical section.\<close>

lemma call_visitWithMutex_cases:
  "call (visitWithMutex visits mu) rw r s =
     (case mu of
        None \<Rightarrow> (Panicked NilDereference, new_locals rw, s, [])
      | Some m \<Rightarrow>
          if mutexes s m then (Blocked, new_locals rw, s, [])
          else (case visits of
                  None \<Rightarrow> (Panicked NilDereference, new_locals rw,
                            s\<lparr>mutexes := (mutexes s)(m := True)\<rparr>, [Acquire m])
                | Some a \<Rightarrow> call (visitWithMutex (Some a) (Some m)) rw r s))"
proof (cases mu)
  case None
  then show ?thesis
    by (simp add: call_def visitWithMutex_def mu_Lock_def)
next
  case (Some m)
  show ?thesis
  proof (cases "mutexes s m")
    case True
    with Some show ?thesis
      by (simp add: call_def visitWithMutex_def mu_Lock_def)
  next
    case False
    show ?thesis
    proof (cases visits)
      case None
      with Some False show ?thesis
        by (simp add: call_def visitWithMutex_def mu_Lock_def incr_load_def)
    next
      case (Some a)
      with \<open>mu = Some m\<close> False show ?thesis
        by simp
    qed
  qed
qed

text \<open>
  Claim C6, amended. Whatever the arguments and the state: a call of the mutex handler
  that returns has acquired and released the mutex, which is free afterwards. A call that
  ends abnormally after it acquired the mutex is the call on a nil counter pointer, which
  panics at the increment: it does not release the mutex, which stays locked.
\<close>

theorem mutex_release:
  "(outcome_of (call (visitWithMutex visits mu) rw r s) = Returned \<longrightarrow>
      (\<exists>m. mu = Some m \<and> \<not> mutexes (world_of (call (visitWithMutex visits mu) rw r s)) m \<and>
           Acquire m \<in> set (events_of (call (visitWithMutex visits mu) rw r s)) \<and>
           Release m \<in> set (events_of (call (visitWithMutex visits mu) rw r s)))) \<and>
   (\<forall>m. Acquire m \<in> set (events_of (call (visitWithMutex visits mu) rw r s)) \<and>
        outcome_of (call (visitWithMutex visits mu) rw r s) \<noteq> Returned \<longrightarrow>
        visits = None \<and> mu = Some m \<and>
        outcome_of (call (visitWithMutex visits mu) rw r s) = Panicked NilDereference \<and>
        Release m \<notin> set (events_of (call (visitWithMutex visits mu) rw r s)) \<and>
        mutexes (world_of (call (visitWithMutex visits mu) rw r s)) m)"
proof (cases mu)
  case None
  then show ?thesis
    by (simp add: call_visitWithMutex_cases outcome_of_def events_of_def)
next
  case (Some m)
  show ?thesis
  proof (cases "mutexes s m")
    case True
    with Some show ?thesis
      by (simp add: call_visitWithMutex_cases outcome_of_def events_of_def)
  next
    case False
    show ?thesis
    proof (cases visits)
      case None
      with Some False show ?thesis
        by (simp add: call_visitWithMutex_cases outcome_of_def events_of_def world_of_def)
    next
      case (Some a)
      with \<open>mu = Some m\<close> False show ?thesis
        by (simp add: call_visitWithMutex outcome_of_def events_of_def world_of_def)
    qed
  qed
qed

theorem mutex_release_witness:
  "outcome_of (call (visitWithMutex (Some 0) (Some 0)) NewRecorder (GET ''/visit-with-mutex'') zero_world)
     = Returned \<and>
   \<not> mutexes (world_of (call (visitWithMutex (Some 0) (Some 0)) NewRecorder (GET ''/visit-with-mutex'') zero_world)) 0 \<and>
   Acquire 0 \<in> set (events_of (call (visitWithMutex None (Some 0)) NewRecorder (GET ''/visit-with-mutex'') zero_world)) \<and>
   outcome_of (call (visitWithMutex None (Some 0)) NewRecorder (GET ''/visit-with-mutex'') zero_world)
     \<noteq> Returned \<and>
   mutexes (world_of (call (visitWithMutex None (Some 0)) NewRecorder (GET ''/visit-with-mutex'') zero_world)) 0"
proof -
  have f: "\<not> mutexes zero_world 0"
    by (simp add: zero_world_def)
  have r: "outcome_of (call (visitWithMutex (Some 0) (Some 0)) NewRecorder (GET ''/visit-with-mutex'') zero_world)
     = Returned"
    by (simp add: call_visitWithMutex [OF f] outcome_of_def)
  have p: "Acquire 0 \<in> set (events_of (call (visitWithMutex None (Some 0)) NewRecorder (GET ''/visit-with-mutex'') zero_world))"
    "outcome_of (call (visitWithMutex None (Some 0)) NewRecorder (GET ''/visit-with-mutex'') zero_world)
     \<noteq> Returned"
    by (simp_all add: call_visitWithMutex_cases f outcome_of_def events_of_def)
  show ?thesis
    using r p
      mutex_release [of "Some 0" "Some 0" NewRecorder "GET ''/visit-with-mutex''" zero_world]
      mutex_release [of None "Some 0" NewRecorder "GET ''/visit-with-mutex''" zero_world]
    by blast
qed

section \<open>The counter of the service\<close>

lemma service_idle_main: "service_idle main_world"
  by (simp add: service_idle_def main_world_def main_construct_def zero_world_def make_chan_def
      chan_send_def world_of_def new_locals_def mu_main_def ch_main_def visits_main_def)

lemma heap_main_world: "heap main_world a = 0"
  by (simp add: main_world_def main_construct_def zero_world_def make_chan_def
      chan_send_def world_of_def new_locals_def)

lemma service_idle_idle: "service_idle s \<Longrightarrow> idle strat visits_main mu_main ch_main s"
  by (cases strat) (simp_all add: service_idle_def)

lemma service_idle_heap_update: "service_idle (s\<lparr>heap := h\<rparr>) = service_idle s"
  by (simp add: service_idle_def)

lemma ServeHTTP_visit:
  assumes "service_idle s" "p \<in> set visit_paths"
  shows "\<exists>res. ServeHTTP (GET p) s = Some res \<and> outcome_of res = Returned \<and>
           world_of res = s\<lparr>heap := (heap s)(visits_main := heap s visits_main + 1)\<rparr> \<and>
           response_of res = WriteString NewRecorder (Sprintf visits_format [heap s visits_main + 1])"
proof -
  obtain strat where h: "map_of mux p = Some (visit strat visits_main mu_main ch_main)"
    using assms(2)
    by (auto simp: visit_paths_def mux_def intro: that [of Mutex] that [of Atomic] that [of Channel])
  obtain l evs where c: "call (visit strat visits_main mu_main ch_main) NewRecorder (GET p) s =
           (Returned, l, s\<lparr>heap := (heap s)(visits_main := heap s visits_main + 1)\<rparr>, evs)"
    and wl: "w l = WriteString NewRecorder (Sprintf visits_format [heap s visits_main + 1])"
    using call_visit [OF service_idle_idle [OF assms(1)]] by blast
  have "ServeHTTP (GET p) s = Some (call (visit strat visits_main mu_main ch_main) NewRecorder (GET p) s)"
    by (simp add: ServeHTTP_def GET_def h)
  then show ?thesis
    unfolding c by (simp add: wl outcome_of_def world_of_def response_of_def)
qed

text \<open>
  Claim C2, as stated, fails: \<^verbatim>\<open>main\<close> declares one variable \<^verbatim>\<open>visits\<close> and builds the three
  handlers on \<^verbatim>\<open>&visits\<close>. In the service as constructed, a request to the atomic endpoint
  is answered with the count 1; after one request to the mutex endpoint, the same request
  is answered with the count 2.
\<close>

theorem one_counter_for_three_handlers:
  "map_option (Body \<circ> response_of) (ServeHTTP (GET ''/visit-with-atomic'') main_world)
     = Some (visit_text 1) \<and>
   map_option (Body \<circ> response_of)
     (ServeHTTP (GET ''/visit-with-atomic'')
        (world_of (call (visitWithMutex (Some visits_main) (Some mu_main)) NewRecorder
           (GET ''/visit-with-mutex'') main_world)))
     = Some (visit_text 2) \<and>
   visit_text 1 \<noteq> visit_text 2"
proof -
  have m: "\<not> mutexes main_world mu_main"
    using service_idle_main by (simp add: service_idle_def)
  have a: "map_of mux ''/visit-with-atomic'' = Some (visitWithAtomic (Some visits_main))"
    by (simp add: mux_def)
  have s: "ServeHTTP (GET ''/visit-with-atomic'') s
      = Some (call (visitWithAtomic (Some visits_main)) NewRecorder (GET ''/visit-with-atomic'') s)" for s
    by (simp add: ServeHTTP_def GET_def a)
  have "visit_text 1 \<noteq> visit_text 2"
    using visit_text_inj [of 1 2] by auto
  then show ?thesis
    by (simp add: s call_visitWithAtomic call_visitWithMutex [OF m] response_of_def world_of_def
        WriteString_NewRecorder Sprintf_visits heap_main_world)
qed

text \<open>
  Claim C2, amended. The service holds one counter, shared by the three visit handlers:
  in every state of the service between requests, a request to any visit endpoint returns
  and adds one to that counter, and the next request to any visit endpoint, the same or
  another, reports the count increased by both.
\<close>

theorem shared_counter:
  assumes "service_idle s" "p \<in> set visit_paths" "q \<in> set visit_paths"
  shows "\<exists>res res'.
           ServeHTTP (GET p) s = Some res \<and> outcome_of res = Returned \<and>
           heap (world_of res) visits_main = heap s visits_main + 1 \<and>
           service_idle (world_of res) \<and>
           ServeHTTP (GET q) (world_of res) = Some res' \<and> outcome_of res' = Returned \<and>
           Body (response_of res') = visit_text (unat (heap s visits_main + 2)) \<and>
           heap (world_of res') visits_main = heap s visits_main + 2"
proof -
  obtain res where r: "ServeHTTP (GET p) s = Some res" "outcome_of res = Returned"
    "world_of res = s\<lparr>heap := (heap s)(visits_main := heap s visits_main + 1)\<rparr>"
    using ServeHTTP_visit [OF assms(1,2)] by blast
  have i: "service_idle (world_of res)"
    using assms(1) by (simp add: r(3) service_idle_heap_update)
  obtain res' where r': "ServeHTTP (GET q) (world_of res) = Some res'" "outcome_of res' = Returned"
    "world_of res' = (world_of res)\<lparr>heap := (heap (world_of res))(visits_main := heap (world_of res) visits_main + 1)\<rparr>"
    "response_of res' = WriteString NewRecorder (Sprintf visits_format [heap (world_of res) visits_main + 1])"
    using ServeHTTP_visit [OF i assms(3)] by blast
  have h1: "heap (world_of res) visits_main = heap s visits_main + 1"
    by (simp add: r(3))
  have h2: "heap (world_of res') visits_main = heap s visits_main + 2"
    by (simp add: r'(3) h1)
  have b: "Body (response_of res') = visit_text (unat (heap s visits_main + 2))"
    by (simp add: r'(4) h1 WriteString_NewRecorder Sprintf_visits add.commute)
  show ?thesis
    using r(1,2) h1 i r'(1,2) b h2 by blast
qed

theorem shared_counter_witness:
  "service_idle main_world \<and> ''/visit-with-channel'' \<in> set visit_paths \<and>
   ''/visit-with-mutex'' \<in> set visit_paths \<and>
   (\<exists>res res'.
      ServeHTTP (GET ''/visit-with-channel'') main_world = Some res \<and> outcome_of res = Returned \<and>
      heap (world_of res) visits_main = 1 \<and>
      ServeHTTP (GET ''/visit-with-mutex'') (world_of res) = Some res' \<and>
      Body (response_of res') = visit_text 2)"
proof -
  have p: "''/visit-with-channel'' \<in> set visit_paths" "''/visit-with-mutex'' \<in> set visit_paths"
    by (simp_all add: visit_paths_def)
  show ?thesis
    using shared_counter [OF service_idle_main p] service_idle_main p
    by (simp add: heap_main_world) blast
qed

section \<open>The channel handler step by step\<close>

text \<open>The channel handler on any argument and in any state.\<close>

lemma call_visitWithChannel_cases:
  "call (visitWithChannel ch) rw r s =
     (case ch of
        None \<Rightarrow> (Blocked, new_locals rw, s, [])
      | Some c \<Rightarrow>
          (case buf (chans s c) of
             [] \<Rightarrow>
               if closed (chans s c)
               then (Panicked NilDereference, (new_locals rw)\<lparr>visits_v := None\<rparr>, s, [Receive c None])
               else (Blocked, new_locals rw, s, [])
           | None # rest \<Rightarrow>
               (Panicked NilDereference, (new_locals rw)\<lparr>visits_v := None\<rparr>,
                s\<lparr>chans := (chans s)(c := (chans s c)\<lparr>buf := rest\<rparr>)\<rparr>, [Receive c None])
           | Some a # rest \<Rightarrow>
               if closed (chans s c) then
                 (Panicked SendOnClosedChannel,
                  (new_locals rw)\<lparr>visits_v := Some a, loaded := heap s a,
                     message := Sprintf visits_format [heap s a + 1]\<rparr>,
                  s\<lparr>chans := (chans s)(c := (chans s c)\<lparr>buf := rest\<rparr>),
                    heap := (heap s)(a := heap s a + 1)\<rparr>,
                  [Receive c (Some a), Load a (heap s a), Store a (heap s a + 1),
                   Format (Sprintf visits_format [heap s a + 1])])
               else if length rest < cap (chans s c) then
                 (Returned,
                  \<lparr>visits_v = Some a, loaded = heap s a, current = 0,
                   message = Sprintf visits_format [heap s a + 1],
                   w = WriteString rw (Sprintf visits_format [heap s a + 1])\<rparr>,
                  s\<lparr>heap := (heap s)(a := heap s a + 1),
                    chans := (chans s)(c := (chans s c)\<lparr>buf := rest @ [Some a]\<rparr>)\<rparr>,
                  [Receive c (Some a), Load a (heap s a), Store a (heap s a + 1),
                   Format (Sprintf visits_format [heap s a + 1]), Send c (Some a),
                   Reply (Sprintf visits_format [heap s a + 1])])
               else
                 (Blocked,
                  (new_locals rw)\<lparr>visits_v := Some a, loaded := heap s a,
                     message := Sprintf visits_format [heap s a + 1]\<rparr>,
                  s\<lparr>chans := (chans s)(c := (chans s c)\<lparr>buf := rest\<rparr>),
                    heap := (heap s)(a := heap s a + 1)\<rparr>,
                  [Receive c (Some a), Load a (heap s a), Store a (heap s a + 1),
                   Format (Sprintf visits_format [heap s a + 1])])))"
  by (simp add: call_def visitWithChannel_def chan_recv_def incr_load_def incr_store_def
      format_deref_def chan_send_def io_WriteString_def new_locals_def
      split: option.splits list.splits)

text \<open>The channel handler stopped after the receive, after the increment and after the
  send, when all its statements can proceed.\<close>

lemma Body_WriteString: "Body (WriteString rw str) = Body rw @ str"
  by (simp add: WriteString_def WriteHeader_def Let_def)

lemma channel_prefixes:
  assumes "buf (chans s c) = Some a # rest" "\<not> closed (chans s c)" "length rest < cap (chans s c)"
  shows
    "stopped_after 1 (visitWithChannel (Some c)) rw r s =
       (Returned, (new_locals rw)\<lparr>visits_v := Some a\<rparr>,
        s\<lparr>chans := (chans s)(c := (chans s c)\<lparr>buf := rest\<rparr>)\<rparr>,
        [Receive c (Some a)])"
    "stopped_after 3 (visitWithChannel (Some c)) rw r s =
       (Returned, (new_locals rw)\<lparr>visits_v := Some a, loaded := heap s a\<rparr>,
        s\<lparr>chans := (chans s)(c := (chans s c)\<lparr>buf := rest\<rparr>),
          heap := (heap s)(a := heap s a + 1)\<rparr>,
        [Receive c (Some a), Load a (heap s a), Store a (heap s a + 1)])"
    "stopped_after 5 (visitWithChannel (Some c)) rw r s =
       (Returned,
        (new_locals rw)\<lparr>visits_v := Some a, loaded := heap s a,
           message := Sprintf visits_format [heap s a + 1]\<rparr>,
        s\<lparr>heap := (heap s)(a := heap s a + 1),
          chans := (chans s)(c := (chans s c)\<lparr>buf := rest @ [Some a]\<rparr>)\<rparr>,
        [Receive c (Some a), Load a (heap s a), Store a (heap s a + 1),
         Format (Sprintf visits_format [heap s a + 1]), Send c (Some a)])"
  using assms
  by (simp_all add: stopped_after_def visitWithChannel_def chan_recv_def incr_load_def
      incr_store_def format_deref_def chan_send_def new_locals_def eval_nat_numeral)


text \<open>
  Claim C5. Whatever the channel, the writer and the state, a call of the channel handler
  that returns has gone through these states, in this order. After its first statement
  the pointer is out of the channel and in the local \<^verbatim>\<open>visits\<close>, the counter and the writer
  are as before. After its third statement the counter is one more than before, the
  pointer still out of the channel and the writer still untouched. After its fifth
  statement the pointer is back in the channel, the counter incremented, and the writer
  still untouched. The last statement changes nothing but the writer, to which it appends
  the message. The events of the call are the corresponding ones, in this order: receive,
  read, write, format, send, reply. A call that does not return leaves the writer
  untouched and has no reply among its events. On an open and empty channel the call
  waits at the receive, having done nothing. \<^verbatim>\<open>main\<close> puts exactly one pointer, \<^verbatim>\<open>&visits\<close>,
  into the channel of capacity 1 while it constructs the service, and registers the
  handler on that channel afterwards.
\<close>

theorem channel_handler_order:
  "(outcome_of (call (visitWithChannel ch) rw r s) = Returned \<longrightarrow>
      (\<exists>c a rest. ch = Some c \<and> buf (chans s c) = Some a # rest \<and>
         events_of (call (visitWithChannel ch) rw r s) =
           [Receive c (Some a), Load a (heap s a), Store a (heap s a + 1),
            Format (Sprintf visits_format [heap s a + 1]), Send c (Some a),
            Reply (Sprintf visits_format [heap s a + 1])] \<and>
         outcome_of (stopped_after 1 (visitWithChannel ch) rw r s) = Returned \<and>
         visits_v (locals_of (stopped_after 1 (visitWithChannel ch) rw r s)) = Some a \<and>
         buf (chans (world_of (stopped_after 1 (visitWithChannel ch) rw r s)) c) = rest \<and>
         heap (world_of (stopped_after 1 (visitWithChannel ch) rw r s)) = heap s \<and>
         response_of (stopped_after 1 (visitWithChannel ch) rw r s) = rw \<and>
         outcome_of (stopped_after 3 (visitWithChannel ch) rw r s) = Returned \<and>
         heap (world_of (stopped_after 3 (visitWithChannel ch) rw r s)) a = heap s a + 1 \<and>
         buf (chans (world_of (stopped_after 3 (visitWithChannel ch) rw r s)) c) = rest \<and>
         response_of (stopped_after 3 (visitWithChannel ch) rw r s) = rw \<and>
         outcome_of (stopped_after 5 (visitWithChannel ch) rw r s) = Returned \<and>
         heap (world_of (stopped_after 5 (visitWithChannel ch) rw r s)) a = heap s a + 1 \<and>
         buf (chans (world_of (stopped_after 5 (visitWithChannel ch) rw r s)) c) = rest @ [Some a] \<and>
         response_of (stopped_after 5 (visitWithChannel ch) rw r s) = rw \<and>
         world_of (call (visitWithChannel ch) rw r s)
           = world_of (stopped_after 5 (visitWithChannel ch) rw r s) \<and>
         response_of (call (visitWithChannel ch) rw r s)
           = WriteString rw (Sprintf visits_format [heap s a + 1]) \<and>
         Body (response_of (call (visitWithChannel ch) rw r s))
           = Body rw @ Sprintf visits_format [heap s a + 1])) \<and>
   (\<forall>str. Reply str \<in> set (events_of (call (visitWithChannel ch) rw r s)) \<longrightarrow>
      outcome_of (call (visitWithChannel ch) rw r s) = Returned) \<and>
   (outcome_of (call (visitWithChannel ch) rw r s) \<noteq> Returned \<longrightarrow>
      response_of (call (visitWithChannel ch) rw r s) = rw) \<and>
   (\<forall>c. ch = Some c \<and> buf (chans s c) = [] \<and> \<not> closed (chans s c) \<longrightarrow>
      outcome_of (call (visitWithChannel ch) rw r s) = Blocked \<and>
      events_of (call (visitWithChannel ch) rw r s) = [] \<and>
      world_of (call (visitWithChannel ch) rw r s) = s) \<and>
   outcome_of main_construct = Returned \<and>
   events_of main_construct = [Send ch_main (Some visits_main)] \<and>
   buf (chans main_world ch_main) = [Some visits_main] \<and>
   cap (chans main_world ch_main) = 1 \<and>
   \<not> closed (chans main_world ch_main) \<and>
   map_of mux ''/visit-with-channel'' = Some (visitWithChannel (Some ch_main))"
proof -
  have m: "outcome_of main_construct = Returned"
    "events_of main_construct = [Send ch_main (Some visits_main)]"
    by (simp_all add: main_construct_def zero_world_def make_chan_def chan_send_def
        outcome_of_def events_of_def)
  have x: "map_of mux ''/visit-with-channel'' = Some (visitWithChannel (Some ch_main))"
    by (simp add: mux_def)
  have ret: "\<exists>c a rest. ch = Some c \<and> buf (chans s c) = Some a # rest \<and>
         events_of (call (visitWithChannel ch) rw r s) =
           [Receive c (Some a), Load a (heap s a), Store a (heap s a + 1),
            Format (Sprintf visits_format [heap s a + 1]), Send c (Some a),
            Reply (Sprintf visits_format [heap s a + 1])] \<and>
         outcome_of (stopped_after 1 (visitWithChannel ch) rw r s) = Returned \<and>
         visits_v (locals_of (stopped_after 1 (visitWithChannel ch) rw r s)) = Some a \<and>
         buf (chans (world_of (stopped_after 1 (visitWithChannel ch) rw r s)) c) = rest \<and>
         heap (world_of (stopped_after 1 (visitWithChannel ch) rw r s)) = heap s \<and>
         response_of (stopped_after 1 (visitWithChannel ch) rw r s) = rw \<and>
         outcome_of (stopped_after 3 (visitWithChannel ch) rw r s) = Returned \<and>
         heap (world_of (stopped_after 3 (visitWithChannel ch) rw r s)) a = heap s a + 1 \<and>
         buf (chans (world_of (stopped_after 3 (visitWithChannel ch) rw r s)) c) = rest \<and>
         response_of (stopped_after 3 (visitWithChannel ch) rw r s) = rw \<and>
         outcome_of (stopped_after 5 (visitWithChannel ch) rw r s) = Returned \<and>
         heap (world_of (stopped_after 5 (visitWithChannel ch) rw r s)) a = heap s a + 1 \<and>
         buf (chans (world_of (stopped_after 5 (visitWithChannel ch) rw r s)) c) = rest @ [Some a] \<and>
         response_of (stopped_after 5 (visitWithChannel ch) rw r s) = rw \<and>
         world_of (call (visitWithChannel ch) rw r s)
           = world_of (stopped_after 5 (visitWithChannel ch) rw r s) \<and>
         response_of (call (visitWithChannel ch) rw r s)
           = WriteString rw (Sprintf visits_format [heap s a + 1]) \<and>
         Body (response_of (call (visitWithChannel ch) rw r s))
           = Body rw @ Sprintf visits_format [heap s a + 1]"
    if returned: "outcome_of (call (visitWithChannel ch) rw r s) = Returned"
  proof -
    obtain c a rest where k: "ch = Some c" "buf (chans s c) = Some a # rest"
      "\<not> closed (chans s c)" "length rest < cap (chans s c)"
      using returned unfolding call_visitWithChannel_cases
      by (auto simp: outcome_of_def split: option.splits list.splits if_splits)
    show ?thesis
      unfolding k(1) channel_prefixes [OF k(2,3,4)]
      using k(2,3,4)
      by (intro exI [of _ c] exI [of _ a] exI [of _ rest])
         (simp add: call_visitWithChannel_cases outcome_of_def events_of_def world_of_def
           response_of_def locals_of_def new_locals_def Body_WriteString)
  qed
  have h: "(\<forall>str. Reply str \<in> set (events_of (call (visitWithChannel ch) rw r s)) \<longrightarrow>
      outcome_of (call (visitWithChannel ch) rw r s) = Returned) \<and>
   (outcome_of (call (visitWithChannel ch) rw r s) \<noteq> Returned \<longrightarrow>
      response_of (call (visitWithChannel ch) rw r s) = rw) \<and>
   (\<forall>c. ch = Some c \<and> buf (chans s c) = [] \<and> \<not> closed (chans s c) \<longrightarrow>
      outcome_of (call (visitWithChannel ch) rw r s) = Blocked \<and>
      events_of (call (visitWithChannel ch) rw r s) = [] \<and>
      world_of (call (visitWithChannel ch) rw r s) = s)"
    unfolding call_visitWithChannel_cases
    by (simp add: outcome_of_def events_of_def world_of_def response_of_def new_locals_def
        split: option.splits list.splits)
  show ?thesis
    using ret h m x service_idle_main by (simp add: service_idle_def)
qed

theorem channel_handler_order_witness:
  "outcome_of (call (visitWithChannel (Some ch_main)) NewRecorder (GET ''/visit-with-channel'') main_world)
     = Returned \<and>
   events_of (call (visitWithChannel (Some ch_main)) NewRecorder (GET ''/visit-with-channel'') main_world)
     = [Receive ch_main (Some visits_main), Load visits_main 0, Store visits_main 1,
        Format (visit_text 1), Send ch_main (Some visits_main), Reply (visit_text 1)] \<and>
   buf (chans (world_of (stopped_after 1 (visitWithChannel (Some ch_main)) NewRecorder
      (GET ''/visit-with-channel'') main_world)) ch_main) = [] \<and>
   heap (world_of (stopped_after 3 (visitWithChannel (Some ch_main)) NewRecorder
      (GET ''/visit-with-channel'') main_world)) visits_main = 1 \<and>
   buf (chans (world_of (stopped_after 5 (visitWithChannel (Some ch_main)) NewRecorder
      (GET ''/visit-with-channel'') main_world)) ch_main) = [Some visits_main] \<and>
   response_of (stopped_after 5 (visitWithChannel (Some ch_main)) NewRecorder
      (GET ''/visit-with-channel'') main_world) = NewRecorder \<and>
   Body NewRecorder = [] \<and>
   Body (response_of (call (visitWithChannel (Some ch_main)) NewRecorder
      (GET ''/visit-with-channel'') main_world)) = visit_text 1 \<and>
   buf (chans (make_chan 0 1 zero_world) 0) = [] \<and> \<not> closed (chans (make_chan 0 1 zero_world) 0) \<and>
   outcome_of (call (visitWithChannel (Some 0)) NewRecorder (GET ''/visit-with-channel'')
      (make_chan 0 1 zero_world)) = Blocked"
proof -
  let ?h = "visitWithChannel (Some ch_main)" and ?r = "GET ''/visit-with-channel''"
  have i: "idle Channel visits_main mu_main ch_main main_world"
    by (rule service_idle_idle [OF service_idle_main])
  have o: "outcome_of (call ?h NewRecorder ?r main_world) = Returned"
    using i by (simp add: call_visitWithChannel outcome_of_def)
  have b: "buf (chans main_world ch_main) = [Some visits_main]"
    using i by simp
  have e: "buf (chans (make_chan 0 1 zero_world) 0) = [] \<and> \<not> closed (chans (make_chan 0 1 zero_world) 0)"
    by (simp add: make_chan_def)
  have n: "Body NewRecorder = []"
    by (simp add: NewRecorder_def)
  obtain c a rest where k: "Some ch_main = Some c" "buf (chans main_world c) = Some a # rest"
    and ev: "events_of (call ?h NewRecorder ?r main_world) =
           [Receive c (Some a), Load a (heap main_world a), Store a (heap main_world a + 1),
            Format (Sprintf visits_format [heap main_world a + 1]), Send c (Some a),
            Reply (Sprintf visits_format [heap main_world a + 1])]"
    and s1: "buf (chans (world_of (stopped_after 1 ?h NewRecorder ?r main_world)) c) = rest"
    and s3: "heap (world_of (stopped_after 3 ?h NewRecorder ?r main_world)) a = heap main_world a + 1"
    and s5: "buf (chans (world_of (stopped_after 5 ?h NewRecorder ?r main_world)) c) = rest @ [Some a]"
      "response_of (stopped_after 5 ?h NewRecorder ?r main_world) = NewRecorder"
    and fin: "Body (response_of (call ?h NewRecorder ?r main_world))
           = Body NewRecorder @ Sprintf visits_format [heap main_world a + 1]"
    using channel_handler_order [of "Some ch_main" NewRecorder ?r main_world] o by blast
  have c: "c = ch_main" "a = visits_main" "rest = []"
    using k b by simp_all
  have bl: "outcome_of (call (visitWithChannel (Some 0)) NewRecorder ?r (make_chan 0 1 zero_world)) = Blocked"
    using channel_handler_order [of "Some 0" NewRecorder ?r "make_chan 0 1 zero_world"] e by blast
  show ?thesis
    using o ev s1 s3 s5 fin e n bl
    by (simp add: c heap_main_world Sprintf_visits)
qed


section \<open>Formatting and the shared counter\<close>

lemma call_env_id: "run_env (\<lambda>k. id) k as l s = run as l s"
  by (induction as arbitrary: k l s) (simp_all split: outcome.splits)

text \<open>
  Claim C10, as stated, fails for the channel handler: its formatting step is
  \<^verbatim>\<open>fmt.Sprintf(..., *visits)\<close>, which reads the shared variable. In the service of \<^verbatim>\<open>main\<close>,
  where the atomic handler works on the same variable without the token, let one request
  to the atomic endpoint run between the increment of a channel call (which wrote 1) and
  its formatting: the channel call answers with the count 2, where undisturbed it answers
  with 1.
\<close>

theorem channel_format_reads_counter:
  "Body (response_of (call (visitWithChannel (Some ch_main)) NewRecorder
      (GET ''/visit-with-channel'') main_world)) = visit_text 1 \<and>
   Store visits_main 1 \<in> set (events_of
     (call_env
        (\<lambda>k. if k = 3
             then (\<lambda>s. world_of (call (visitWithAtomic (Some visits_main)) NewRecorder
                                    (GET ''/visit-with-atomic'') s))
             else id)
        (visitWithChannel (Some ch_main)) NewRecorder (GET ''/visit-with-channel'') main_world)) \<and>
   Body (response_of
     (call_env
        (\<lambda>k. if k = 3
             then (\<lambda>s. world_of (call (visitWithAtomic (Some visits_main)) NewRecorder
                                    (GET ''/visit-with-atomic'') s))
             else id)
        (visitWithChannel (Some ch_main)) NewRecorder (GET ''/visit-with-channel'') main_world))
     = visit_text 2 \<and>
   visit_text 2 \<noteq> visit_text 1"
proof -
  have i: "idle Channel visits_main mu_main ch_main main_world"
    by (rule service_idle_idle [OF service_idle_main])
  have n: "visit_text 2 \<noteq> visit_text 1"
    using visit_text_inj [of 2 1] by auto
  have a: "Body (response_of (call (visitWithChannel (Some ch_main)) NewRecorder
      (GET ''/visit-with-channel'') main_world)) = visit_text 1"
    using i by (simp add: call_visitWithChannel response_of_def WriteString_NewRecorder
        Sprintf_visits heap_main_world)
  have b: "call_env
        (\<lambda>k. if k = 3
             then (\<lambda>s. world_of (call (visitWithAtomic (Some visits_main)) NewRecorder
                                    (GET ''/visit-with-atomic'') s))
             else id)
        (visitWithChannel (Some ch_main)) NewRecorder (GET ''/visit-with-channel'') main_world
      = (Returned,
         \<lparr>visits_v = Some visits_main, loaded = 0, current = 0, message = visit_text 2,
          w = WriteString NewRecorder (visit_text 2)\<rparr>,
         main_world\<lparr>heap := (heap main_world)(visits_main := 2)\<rparr>,
         [Receive ch_main (Some visits_main), Load visits_main 0, Store visits_main 1,
          Format (visit_text 2), Send ch_main (Some visits_main), Reply (visit_text 2)])"
  proof -
    have "(chans main_world)(ch_main := (chans main_world ch_main)\<lparr>buf := [Some visits_main]\<rparr>)
        = chans main_world"
      using i by (auto simp: fun_eq_iff)
    then show ?thesis
      using i
      by (simp add: call_env_def visitWithChannel_def chan_recv_def incr_load_def incr_store_def
          format_deref_def chan_send_def io_WriteString_def new_locals_def call_visitWithAtomic
          world_of_def heap_main_world Sprintf_visits numeral_3_eq_3)
  qed
  show ?thesis
    using a n by (simp add: b events_of_def response_of_def WriteString_NewRecorder)
qed


text \<open>A run depends on the environment only at the positions of its statements, and a run
  of a sequence is the run of its first part followed by the run of the rest.\<close>

lemma run_env_cong:
  "(\<forall>j. k \<le> j \<and> j < k + length as \<longrightarrow> env j = env' j) \<Longrightarrow>
   run_env env k as l s = run_env env' k as l s"
proof (induction as arbitrary: k l s)
  case Nil
  then show ?case by simp
next
  case (Cons a as)
  have e: "env k = env' k"
    using Cons.prems by simp
  have "run_env env (Suc k) as l' s' = run_env env' (Suc k) as l' s'" for l' s'
    using Cons.prems by (intro Cons.IH) simp
  then show ?case
    by (simp add: e split: outcome.splits)
qed

lemma run_env_append:
  "run_env env k (as @ bs) l s =
     (case run_env env k as l s of
        (Returned, l', s', evs) \<Rightarrow>
          (case run_env env (k + length as) bs l' s' of (r, l'', s'', evs') \<Rightarrow> (r, l'', s'', evs @ evs'))
      | (Panicked e, l', s', evs) \<Rightarrow> (Panicked e, l', s', evs)
      | (Blocked, l', s', evs) \<Rightarrow> (Blocked, l', s', evs))"
proof (induction as arbitrary: k l s)
  case Nil
  then show ?case by (simp split: prod.splits)
next
  case (Cons a as)
  show ?case
  proof (cases "a l (env k s)")
    case (Next ev l' s')
    then show ?thesis
      by (simp add: Cons.IH split: prod.splits result.splits)
  next
    case (Panic e)
    then show ?thesis by simp
  next
    case Block
    then show ?thesis by simp
  qed
qed

text \<open>The statements after the last read, per handler: what they leave in the writer
  depends on the locals only.\<close>

lemma mutex_tail:
  "run_env env k [mu_Unlock mu, format_current, io_WriteString message] l s = (Returned, l', s', evs) \<Longrightarrow>
   w l' = WriteString (w l) (Sprintf visits_format [current l]) \<and>
   message l' = Sprintf visits_format [current l]"
  by (auto simp: mu_Unlock_def format_current_def io_WriteString_def split: option.splits if_splits)

lemma atomic_tail:
  "run_env env k [format_current, io_WriteString message] l s = (Returned, l', s', evs) \<Longrightarrow>
   w l' = WriteString (w l) (Sprintf visits_format [current l]) \<and>
   message l' = Sprintf visits_format [current l]"
  by (auto simp: format_current_def io_WriteString_def)

lemma channel_tail:
  "run_env env k [(\<lambda>l. chan_send ch (visits_v l) l), io_WriteString message] l s = (Returned, l', s', evs) \<Longrightarrow>
   w l' = WriteString (w l) (message l) \<and> message l' = message l"
  by (auto simp: chan_send_def io_WriteString_def split: option.splits if_splits)

lemma body_split:
  "visit Mutex a m c r =
     [mu_Lock (Some m), incr_load (Some a), incr_store (Some a), read_current (Some a)]
       @ [mu_Unlock (Some m), format_current, io_WriteString message]"
  "visit Atomic a m c r = [AddUint64 (Some a) 1] @ [format_current, io_WriteString message]"
  "visit Channel a m c r =
     [chan_recv (Some c), (\<lambda>l. incr_load (visits_v l) l), (\<lambda>l. incr_store (visits_v l) l), format_deref]
       @ [(\<lambda>l. chan_send (Some c) (visits_v l) l), io_WriteString message]"
  by (simp_all add: visitWithMutex_def visitWithAtomic_def visitWithChannel_def)

lemma tail_fixed:
  assumes b: "h r = pre @ post"
    and len: "length pre = Suc K"
    and eq: "\<forall>k\<le>K. env k = env' k"
    and tail: "\<And>e k l s l' s' evs. run_env e k post l s = (Returned, l', s', evs) \<Longrightarrow>
        w l' = f l \<and> message l' = g l"
    and r1: "outcome_of (call_env env h rw r s) = Returned"
    and r2: "outcome_of (call_env env' h rw r s) = Returned"
  shows "response_of (call_env env h rw r s) = response_of (call_env env' h rw r s) \<and>
     message (locals_of (call_env env h rw r s)) = message (locals_of (call_env env' h rw r s))"
proof -
  have pre_eq: "run_env env 0 pre (new_locals rw) s = run_env env' 0 pre (new_locals rw) s"
    using eq len by (intro run_env_cong) simp
  obtain res l1 s1 evs1 where p: "run_env env' 0 pre (new_locals rw) s = (res, l1, s1, evs1)"
    by (rule prod_cases4)
  have res: "res = Returned"
    using r2 unfolding call_env_def b run_env_append p outcome_of_def
    by (cases res) simp_all
  obtain x l2 s2 evs2 where t1: "run_env env (Suc K) post l1 s1 = (x, l2, s2, evs2)"
    by (rule prod_cases4)
  obtain y l3 s3 evs3 where t2: "run_env env' (Suc K) post l1 s1 = (y, l3, s3, evs3)"
    by (rule prod_cases4)
  have c1: "call_env env h rw r s = (x, l2, s2, evs1 @ evs2)"
    unfolding call_env_def b run_env_append pre_eq p res by (simp add: len t1)
  have c2: "call_env env' h rw r s = (y, l3, s3, evs1 @ evs3)"
    unfolding call_env_def b run_env_append p res by (simp add: len t2)
  have "x = Returned" "y = Returned"
    using r1 r2 by (simp_all add: c1 c2 outcome_of_def)
  then have "w l2 = f l1 \<and> message l2 = g l1" "w l3 = f l1 \<and> message l3 = g l1"
    using tail t1 t2 by blast+
  then show ?thesis
    by (simp add: c1 c2 response_of_def locals_of_def)
qed

text \<open>
  Claim C10, amended. In the mutex and the atomic handler the formatting step reads only
  the local \<^verbatim>\<open>current\<close>; in the channel handler it reads the counter through the pointer,
  while the token is held. For each handler, two runs of a call whose environments agree
  up to the last statement that reads the counter (\<open>last_read\<close>: the assignment to
  \<^verbatim>\<open>current\<close> in the mutex handler, the atomic add, the formatting itself in the channel
  handler) and differ in any way afterwards write the same response and hold the same
  message, if both return.
\<close>

theorem message_fixed_after_last_read:
  assumes "\<forall>k\<le>last_read strat. env k = env' k"
    and "outcome_of (call_env env (visit strat a m c) rw r s) = Returned"
    and "outcome_of (call_env env' (visit strat a m c) rw r s) = Returned"
  shows "response_of (call_env env (visit strat a m c) rw r s)
           = response_of (call_env env' (visit strat a m c) rw r s) \<and>
         message (locals_of (call_env env (visit strat a m c) rw r s))
           = message (locals_of (call_env env' (visit strat a m c) rw r s))"
proof (cases strat)
  case Mutex
  have eq: "\<forall>k\<le>3. env k = env' k"
    using assms(1) by (simp add: Mutex)
  show ?thesis
    unfolding Mutex
  proof (rule tail_fixed [where K = 3 and f = "\<lambda>l. WriteString (w l) (Sprintf visits_format [current l])"
          and g = "\<lambda>l. Sprintf visits_format [current l]"])
    show "visit Mutex a m c r =
       [mu_Lock (Some m), incr_load (Some a), incr_store (Some a), read_current (Some a)]
         @ [mu_Unlock (Some m), format_current, io_WriteString message]"
      by (rule body_split)
  qed (use assms(2,3) eq mutex_tail in \<open>simp_all add: Mutex\<close>)
next
  case Atomic
  have eq: "\<forall>k\<le>0. env k = env' k"
    using assms(1) by (simp add: Atomic)
  show ?thesis
    unfolding Atomic
  proof (rule tail_fixed [where K = 0 and f = "\<lambda>l. WriteString (w l) (Sprintf visits_format [current l])"
          and g = "\<lambda>l. Sprintf visits_format [current l]"])
    show "visit Atomic a m c r = [AddUint64 (Some a) 1] @ [format_current, io_WriteString message]"
      by (rule body_split)
  qed (use assms(2,3) eq atomic_tail in \<open>simp_all add: Atomic\<close>)
next
  case Channel
  have eq: "\<forall>k\<le>3. env k = env' k"
    using assms(1) by (simp add: Channel)
  show ?thesis
    unfolding Channel
  proof (rule tail_fixed [where K = 3 and f = "\<lambda>l. WriteString (w l) (message l)" and g = message])
    show "visit Channel a m c r =
       [chan_recv (Some c), (\<lambda>l. incr_load (visits_v l) l), (\<lambda>l. incr_store (visits_v l) l), format_deref]
         @ [(\<lambda>l. chan_send (Some c) (visits_v l) l), io_WriteString message]"
      by (rule body_split)
  qed (use assms(2,3) eq channel_tail in \<open>simp_all add: Channel\<close>)
qed


theorem message_fixed_after_last_read_witness:
  "last_read Mutex < 5 \<and>
   outcome_of (call_env (\<lambda>k. id) (visit Mutex visits_main mu_main ch_main) NewRecorder
      (GET ''/visit-with-mutex'') main_world) = Returned \<and>
   outcome_of (call_env
      (\<lambda>k. if k = 5
           then (\<lambda>s. world_of (call (visitWithAtomic (Some visits_main)) NewRecorder
                                  (GET ''/visit-with-atomic'') s))
           else id)
      (visit Mutex visits_main mu_main ch_main) NewRecorder (GET ''/visit-with-mutex'') main_world)
     = Returned \<and>
   heap (world_of (call_env
      (\<lambda>k. if k = 5
           then (\<lambda>s. world_of (call (visitWithAtomic (Some visits_main)) NewRecorder
                                  (GET ''/visit-with-atomic'') s))
           else id)
      (visit Mutex visits_main mu_main ch_main) NewRecorder (GET ''/visit-with-mutex'') main_world))
     visits_main = 2 \<and>
   Body (response_of (call_env
      (\<lambda>k. if k = 5
           then (\<lambda>s. world_of (call (visitWithAtomic (Some visits_main)) NewRecorder
                                  (GET ''/visit-with-atomic'') s))
           else id)
      (visit Mutex visits_main mu_main ch_main) NewRecorder (GET ''/visit-with-mutex'') main_world))
     = visit_text 1"
proof -
  let ?E = "\<lambda>k. if k = 5
           then (\<lambda>s. world_of (call (visitWithAtomic (Some visits_main)) NewRecorder
                                  (GET ''/visit-with-atomic'') s))
           else id"
  let ?c = "\<lambda>env. call_env env (visit Mutex visits_main mu_main ch_main) NewRecorder
      (GET ''/visit-with-mutex'') main_world"
  have m: "\<not> mutexes main_world mu_main"
    using service_idle_main by (simp add: service_idle_def)
  have e: "\<forall>k\<le>last_read Mutex. (\<lambda>k. id) k = ?E k"
    by simp
  have u: "?c (\<lambda>k. id) = call (visitWithMutex (Some visits_main) (Some mu_main)) NewRecorder
      (GET ''/visit-with-mutex'') main_world"
    by (simp add: call_env_def call_env_id call_def)
  have r1: "outcome_of (?c (\<lambda>k. id)) = Returned"
    unfolding u by (simp add: call_visitWithMutex [OF m] outcome_of_def)
  have b1: "Body (response_of (?c (\<lambda>k. id))) = visit_text 1"
    unfolding u
    by (simp add: call_visitWithMutex [OF m] response_of_def WriteString_NewRecorder Sprintf_visits
        heap_main_world)
  have r2: "outcome_of (?c ?E) = Returned" and h2: "heap (world_of (?c ?E)) visits_main = 2"
    using m
    by (simp_all add: call_env_def visitWithMutex_def mu_Lock_def incr_load_def incr_store_def
        read_current_def mu_Unlock_def format_current_def io_WriteString_def new_locals_def
        call_visitWithAtomic world_of_def outcome_of_def heap_main_world eval_nat_numeral)
  have "response_of (?c (\<lambda>k. id)) = response_of (?c ?E)"
    using message_fixed_after_last_read [OF e r1 r2] by blast
  then show ?thesis
    using r1 r2 h2 b1 by simp
qed

section \<open>The response of a visit\<close>








section \<open>Concurrent calls of one handler\<close>

subsection \<open>Counting goroutines\<close>

lemma filter_length_update:
  "i < length xs \<Longrightarrow>
   length (filter P (xs[i := y])) + (if P (xs ! i) then 1 else 0)
     = length (filter P xs) + (if P y then 1 else 0)"
proof (induction xs arbitrary: i)
  case Nil
  then show ?case by simp
next
  case (Cons x xs)
  then show ?case
    by (cases i) auto
qed

lemma filter_mset_update:
  "i < length xs \<Longrightarrow>
   mset (map f (filter P (xs[i := y]))) + (if P (xs ! i) then {#f (xs ! i)#} else {#})
     = mset (map f (filter P xs)) + (if P y then {#f y#} else {#})"
proof (induction xs arbitrary: i)
  case Nil
  then show ?case by simp
next
  case (Cons x xs)
  show ?case
  proof (cases i)
    case 0
    then show ?thesis by simp
  next
    case (Suc j)
    then have "j < length xs"
      using Cons.prems by simp
    from Cons.IH [OF this] show ?thesis
      by (simp add: Suc split: if_splits)
  qed
qed

lemma reached_advance:
  assumes "t < length ths" "pc (ths ! t) = k"
  shows "reached n (ths[t := (ths ! t)\<lparr>pc := Suc k, vars := l\<rparr>])
           = (if n = Suc k then Suc (reached n ths) else reached n ths)"
proof -
  have "n \<le> Suc k \<and> \<not> n \<le> k \<longleftrightarrow> n = Suc k"
    by arith
  then show ?thesis
    using filter_length_update [OF assms(1), of "\<lambda>th. n \<le> pc th" "(ths ! t)\<lparr>pc := Suc k, vars := l\<rparr>"]
      assms(2)
    by (cases "n \<le> k"; cases "n \<le> Suc k") (simp_all add: reached_def)
qed

lemma tickets_advance:
  assumes "t < length ths" "pc (ths ! t) = k"
    and "n \<le> k \<Longrightarrow> f ((ths ! t)\<lparr>pc := Suc k, vars := l\<rparr>) = f (ths ! t)"
  shows "tickets f n (ths[t := (ths ! t)\<lparr>pc := Suc k, vars := l\<rparr>])
           = (if n = Suc k then add_mset (f ((ths ! t)\<lparr>pc := Suc k, vars := l\<rparr>)) (tickets f n ths)
              else tickets f n ths)"
proof -
  have "n \<le> Suc k \<and> \<not> n \<le> k \<longleftrightarrow> n = Suc k"
    by arith
  then show ?thesis
    using filter_mset_update [OF assms(1), of f "\<lambda>th. n \<le> pc th" "(ths ! t)\<lparr>pc := Suc k, vars := l\<rparr>"]
      assms(2,3)
    by (cases "n \<le> k"; cases "n \<le> Suc k") (simp_all add: tickets_def)
qed

lemma size_tickets: "size (tickets f n ths) = reached n ths"
  by (metis tickets_def reached_def size_mset length_map)

lemma reached_le_length: "reached n ths \<le> length ths"
  by (simp add: reached_def)

lemma reached_antitone: "n \<le> n' \<Longrightarrow> reached n' ths \<le> reached n ths"
  unfolding reached_def by (induction ths) auto

lemma reached_strict:
  "th \<in> set ths \<Longrightarrow> pc th = k \<Longrightarrow> reached (Suc k) ths < reached k ths"
  unfolding reached_def
proof (induction ths)
  case Nil
  then show ?case by simp
next
  case (Cons x xs)
  have "length (filter (\<lambda>th. Suc k \<le> pc th) xs) \<le> length (filter (\<lambda>th. k \<le> pc th) xs)"
    using reached_antitone [of k "Suc k" xs] by (simp add: reached_def)
  with Cons show ?case
    by auto
qed

lemma reached_all: "(\<forall>th\<in>set ths. n \<le> pc th) \<Longrightarrow> reached n ths = length ths"
  by (simp add: reached_def)

lemma reached_gap:
  "reached n' ths < reached n ths \<Longrightarrow> \<exists>t<length ths. n \<le> pc (ths ! t) \<and> pc (ths ! t) < n'"
proof -
  assume a: "reached n' ths < reached n ths"
  have "\<exists>th\<in>set ths. n \<le> pc th \<and> \<not> n' \<le> pc th"
  proof (rule ccontr)
    assume "\<not> ?thesis"
    then have "filter (\<lambda>th. n \<le> pc th) ths = filter (\<lambda>th. n \<le> pc th \<and> n' \<le> pc th) ths"
      by (intro filter_cong) auto
    also have "length \<dots> \<le> length (filter (\<lambda>th. n' \<le> pc th) ths)"
      by (induction ths) auto
    finally show False
      using a by (simp add: reached_def)
  qed
  then show ?thesis
    by (metis in_set_conv_nth not_le)
qed

lemma tickets_all:
  "(\<forall>th\<in>set ths. n \<le> pc th) \<Longrightarrow> tickets f n ths = mset (map f ths)"
  by (simp add: tickets_def)

subsection \<open>Steps of the scheduler\<close>

lemma sched_step_Next:
  assumes "t < length (threads cfg)" "fate (threads cfg ! t) = None" "pc (threads cfg ! t) = k"
    "k < length body" "(body ! k) (vars (threads cfg ! t)) (shared cfg) = Next ev l' s'"
  shows "sched_step body cfg t =
    \<lparr>threads = (threads cfg)[t := (threads cfg ! t)\<lparr>pc := Suc k, vars := l'\<rparr>], shared = s'\<rparr>"
  using assms by (simp add: sched_step_def Let_def)

lemma sched_step_Block:
  assumes "(body ! pc (threads cfg ! t)) (vars (threads cfg ! t)) (shared cfg) = Block"
  shows "sched_step body cfg t = cfg"
  using assms by (simp add: sched_step_def Let_def)

lemma sched_step_finished:
  assumes "length (threads cfg) \<le> t \<or> length body \<le> pc (threads cfg ! t)"
  shows "sched_step body cfg t = cfg"
  using assms by (auto simp: sched_step_def Let_def)

subsection \<open>The invariants are kept by every step\<close>

lemma atomic_body:
  "length (visitWithAtomic (Some a) r) = 3"
  "visitWithAtomic (Some a) r ! 0 = AddUint64 (Some a) 1"
  "visitWithAtomic (Some a) r ! Suc 0 = format_current"
  "visitWithAtomic (Some a) r ! 2 = io_WriteString message"
  by (simp_all add: visitWithAtomic_def numeral_2_eq_2)

lemma locals_after_update:
  assumes "\<forall>th\<in>set ths. P th" "P x"
  shows "\<forall>th\<in>set (ths[t := x]). P th"
  using assms set_update_subset_insert [of ths t x] by auto

lemma atomic_inv_step:
  assumes inv: "atomic_inv cfg"
  shows "atomic_inv (sched_step (visitWithAtomic (Some 0) r) cfg t)"
proof (cases "t < length (threads cfg) \<and> pc (threads cfg ! t) < 3")
  case False
  then have "sched_step (visitWithAtomic (Some 0) r) cfg t = cfg"
    by (intro sched_step_finished) (auto simp: atomic_body)
  then show ?thesis using inv by simp
next
  case True
  let ?ths = "threads cfg" and ?s = "shared cfg"
  let ?th = "threads cfg ! t"
  have t: "t < length ?ths" using True by simp
  have loc: "\<forall>th\<in>set ?ths. atomic_local th"
    and len: "length ?ths < 2 ^ 64"
    and val: "unat (heap ?s 0) = reached 1 ?ths"
    and tk: "tickets (\<lambda>th. unat (current (vars th))) 1 ?ths = mset [1..<Suc (reached 1 ?ths)]"
    using inv by (simp_all add: atomic_inv_def)
  have mem: "?th \<in> set ?ths" using t by simp
  then have lt: "atomic_local ?th" using loc by blast
  then have f: "fate ?th = None" by (simp add: atomic_local_def)
  consider (a) "pc ?th = 0" | (b) "pc ?th = Suc 0" | (c) "pc ?th = 2"
    using True by linarith
  then show ?thesis
  proof cases
    case a
    let ?l = "(vars ?th)\<lparr>current := heap ?s 0 + 1\<rparr>"
    let ?x = "?th\<lparr>pc := Suc 0, vars := ?l\<rparr>"
    have s: "sched_step (visitWithAtomic (Some 0) r) cfg t =
      \<lparr>threads = ?ths[t := ?x], shared = ?s\<lparr>heap := (heap ?s)(0 := heap ?s 0 + 1)\<rparr>\<rparr>"
      by (rule sched_step_Next [OF t f a]) (simp_all add: atomic_body AddUint64_def)
    have "reached (Suc 0) ?ths < reached 0 ?ths"
      by (rule reached_strict [OF mem a])
    then have small: "reached 1 ?ths < length ?ths"
      using reached_le_length [of 0 ?ths] by simp
    have u: "unat (heap ?s 0 + 1) = Suc (reached 1 ?ths)"
      using val small len by (simp add: unat_word_ariths)
    have r': "reached 1 (?ths[t := ?x]) = Suc (reached 1 ?ths)"
      by (simp add: reached_advance [OF t a])
    have tk': "tickets (\<lambda>th. unat (current (vars th))) 1 (?ths[t := ?x])
        = mset [1..<Suc (Suc (reached 1 ?ths))]"
      using tk u by (simp add: tickets_advance [OF t a])
    have "atomic_local ?x"
      using lt a by (simp add: atomic_local_def)
    then have loc': "\<forall>th\<in>set (?ths[t := ?x]). atomic_local th"
      by (rule locals_after_update [OF loc])
    show ?thesis
      unfolding s atomic_inv_def using len u r' tk' loc' by simp
  next
    case b
    let ?l = "(vars ?th)\<lparr>message := Sprintf visits_format [current (vars ?th)]\<rparr>"
    let ?x = "?th\<lparr>pc := Suc (Suc 0), vars := ?l\<rparr>"
    have s: "sched_step (visitWithAtomic (Some 0) r) cfg t = \<lparr>threads = ?ths[t := ?x], shared = ?s\<rparr>"
      by (rule sched_step_Next [OF t f b]) (simp_all add: atomic_body format_current_def)
    have r': "reached 1 (?ths[t := ?x]) = reached 1 ?ths"
      by (simp add: reached_advance [OF t b])
    have tk': "tickets (\<lambda>th. unat (current (vars th))) 1 (?ths[t := ?x])
        = tickets (\<lambda>th. unat (current (vars th))) 1 ?ths"
      by (simp add: tickets_advance [OF t b])
    have "atomic_local ?x"
      using lt b by (simp add: atomic_local_def)
    then have loc': "\<forall>th\<in>set (?ths[t := ?x]). atomic_local th"
      by (rule locals_after_update [OF loc])
    show ?thesis
      unfolding s atomic_inv_def using len val r' tk tk' loc' by simp
  next
    case c
    let ?l = "(vars ?th)\<lparr>w := WriteString (w (vars ?th)) (message (vars ?th))\<rparr>"
    let ?x = "?th\<lparr>pc := Suc 2, vars := ?l\<rparr>"
    have s: "sched_step (visitWithAtomic (Some 0) r) cfg t = \<lparr>threads = ?ths[t := ?x], shared = ?s\<rparr>"
      by (rule sched_step_Next [OF t f c]) (simp_all add: atomic_body io_WriteString_def)
    have r': "reached 1 (?ths[t := ?x]) = reached 1 ?ths"
      using reached_advance [OF t c, of 1 ?l] by simp
    have tk': "tickets (\<lambda>th. unat (current (vars th))) 1 (?ths[t := ?x])
        = tickets (\<lambda>th. unat (current (vars th))) 1 ?ths"
      using tickets_advance [OF t c, of 1 "\<lambda>th. unat (current (vars th))" ?l] by simp
    have "atomic_local ?x"
      using lt c by (simp add: atomic_local_def)
    then have loc': "\<forall>th\<in>set (?ths[t := ?x]). atomic_local th"
      by (rule locals_after_update [OF loc])
    show ?thesis
      unfolding s atomic_inv_def using len val r' tk tk' loc' by simp
  qed
qed

lemma mutex_body:
  "length (visitWithMutex (Some a) (Some m) r) = 7"
  "visitWithMutex (Some a) (Some m) r ! 0 = mu_Lock (Some m)"
  "visitWithMutex (Some a) (Some m) r ! Suc 0 = incr_load (Some a)"
  "visitWithMutex (Some a) (Some m) r ! 2 = incr_store (Some a)"
  "visitWithMutex (Some a) (Some m) r ! 3 = read_current (Some a)"
  "visitWithMutex (Some a) (Some m) r ! 4 = mu_Unlock (Some m)"
  "visitWithMutex (Some a) (Some m) r ! 5 = format_current"
  "visitWithMutex (Some a) (Some m) r ! 6 = io_WriteString message"
  by (simp_all add: visitWithMutex_def eval_nat_numeral)

lemma reached_chain:
  "reached 5 ths \<le> reached 4 ths" "reached 4 ths \<le> reached 3 ths"
  "reached 3 ths \<le> reached 2 ths" "reached 2 ths \<le> reached 1 ths"
  "reached 1 ths \<le> length ths"
  by (simp_all add: reached_antitone reached_le_length)

lemma no_goroutine_at:
  "reached (Suc k) ths = reached k ths \<Longrightarrow> \<forall>th\<in>set ths. pc th \<noteq> k"
  using reached_strict by fastforce

lemma mutex_inv_step:
  assumes inv: "mutex_inv cfg"
  shows "mutex_inv (sched_step (visitWithMutex (Some 0) (Some 0) r) cfg t)"
proof (cases "t < length (threads cfg) \<and> pc (threads cfg ! t) < 7")
  case False
  then have "sched_step (visitWithMutex (Some 0) (Some 0) r) cfg t = cfg"
    by (intro sched_step_finished) (auto simp: mutex_body)
  then show ?thesis using inv by simp
next
  case True
  let ?ths = "threads cfg" and ?s = "shared cfg"
  let ?th = "threads cfg ! t"
  let ?f = "\<lambda>th. unat (current (vars th))"
  let ?body = "visitWithMutex (Some 0) (Some 0) r"
  have t: "t < length ?ths" using True by simp
  have loc: "\<forall>th\<in>set ?ths. mutex_local th"
    and len: "length ?ths < 2 ^ 64"
    and cs: "reached 1 ?ths = reached 5 ?ths + (if mutexes ?s 0 then 1 else 0)"
    and val: "unat (heap ?s 0) = reached 3 ?ths"
    and tk: "tickets ?f 4 ?ths = mset [1..<Suc (reached 4 ?ths)]"
    and ld: "\<forall>th\<in>set ?ths. pc th = 2 \<longrightarrow> loaded (vars th) = heap ?s 0"
    using inv by (simp_all add: mutex_inv_def)
  have mem: "?th \<in> set ?ths" using t by simp
  then have lt: "mutex_local ?th" using loc by blast
  then have f: "fate ?th = None" by (simp add: mutex_local_def)
  have strict: "reached (Suc (pc ?th)) ?ths < reached (pc ?th) ?ths"
    by (rule reached_strict [OF mem refl])
  note chain = reached_chain [of ?ths]
  have adv: "reached n (?ths[t := ?th\<lparr>pc := Suc (pc ?th), vars := l\<rparr>])
      = (if n = Suc (pc ?th) then Suc (reached n ?ths) else reached n ?ths)" for n l
    by (rule reached_advance [OF t refl])
  have tadv: "tickets ?f 4 (?ths[t := ?th\<lparr>pc := Suc (pc ?th), vars := l\<rparr>])
      = (if pc ?th = 3 then add_mset (unat (current l)) (tickets ?f 4 ?ths) else tickets ?f 4 ?ths)"
    if "4 \<le> pc ?th \<Longrightarrow> current l = current (vars ?th)" for l
    using tickets_advance [OF t refl, of 4 ?f l] that by (auto simp: eval_nat_numeral)
  have inv_after: "mutex_inv \<lparr>threads = ?ths[t := ?th\<lparr>pc := Suc (pc ?th), vars := l\<rparr>], shared = s'\<rparr>"
    if "mutex_local (?th\<lparr>pc := Suc (pc ?th), vars := l\<rparr>)"
      and "4 \<le> pc ?th \<Longrightarrow> current l = current (vars ?th)"
      and "reached 1 (?ths[t := ?th\<lparr>pc := Suc (pc ?th), vars := l\<rparr>])
        = reached 5 (?ths[t := ?th\<lparr>pc := Suc (pc ?th), vars := l\<rparr>]) + (if mutexes s' 0 then 1 else 0)"
      and "unat (heap s' 0) = reached 3 (?ths[t := ?th\<lparr>pc := Suc (pc ?th), vars := l\<rparr>])"
      and "pc ?th = 3 \<Longrightarrow> unat (current l) = Suc (reached 4 ?ths)"
      and "\<forall>th\<in>set (?ths[t := ?th\<lparr>pc := Suc (pc ?th), vars := l\<rparr>]). pc th = 2 \<longrightarrow> loaded (vars th) = heap s' 0"
    for l s'
  proof -
    have "\<forall>th\<in>set (?ths[t := ?th\<lparr>pc := Suc (pc ?th), vars := l\<rparr>]). mutex_local th"
      by (rule locals_after_update [OF loc that(1)])
    moreover have "tickets ?f 4 (?ths[t := ?th\<lparr>pc := Suc (pc ?th), vars := l\<rparr>])
        = mset [1..<Suc (reached 4 (?ths[t := ?th\<lparr>pc := Suc (pc ?th), vars := l\<rparr>]))]"
    proof (cases "pc ?th = 3")
      case True
      have "tickets ?f 4 (?ths[t := ?th\<lparr>pc := Suc (pc ?th), vars := l\<rparr>])
          = add_mset (Suc (reached 4 ?ths)) (mset [1..<Suc (reached 4 ?ths)])"
        using tadv [OF that(2)] tk that(5) True by simp
      moreover have "reached 4 (?ths[t := ?th\<lparr>pc := Suc (pc ?th), vars := l\<rparr>]) = Suc (reached 4 ?ths)"
        using adv [of 4 l] True by simp
      ultimately show ?thesis
        by simp
    next
      case False
      have "tickets ?f 4 (?ths[t := ?th\<lparr>pc := Suc (pc ?th), vars := l\<rparr>]) = tickets ?f 4 ?ths"
        using tadv [OF that(2)] False by simp
      moreover have "reached 4 (?ths[t := ?th\<lparr>pc := Suc (pc ?th), vars := l\<rparr>]) = reached 4 ?ths"
        using adv [of 4 l] False by simp
      ultimately show ?thesis
        using tk by simp
    qed
    ultimately show ?thesis
      unfolding mutex_inv_def using len that(3,4,6) by simp
  qed
  consider (p0) "pc ?th = 0" | (p1) "pc ?th = 1" | (p2) "pc ?th = 2" | (p3) "pc ?th = 3"
    | (p4) "pc ?th = 4" | (p5) "pc ?th = 5" | (p6) "pc ?th = 6"
    using True by linarith
  then show ?thesis
  proof cases
    case p0
    show ?thesis
    proof (cases "mutexes ?s 0")
      case True
      have "sched_step ?body cfg t = cfg"
        by (rule sched_step_Block) (simp add: p0 mutex_body mu_Lock_def True)
      then show ?thesis using inv by simp
    next
      case False
      have s: "sched_step ?body cfg t =
        \<lparr>threads = ?ths[t := ?th\<lparr>pc := Suc (pc ?th), vars := vars ?th\<rparr>],
         shared = ?s\<lparr>mutexes := (mutexes ?s)(0 := True)\<rparr>\<rparr>"
        by (rule sched_step_Next [OF t f refl]) (simp_all add: p0 mutex_body mu_Lock_def False)
      show ?thesis
        unfolding s
      proof (rule inv_after)
        show "mutex_local (?th\<lparr>pc := Suc (pc ?th), vars := vars ?th\<rparr>)"
          using lt p0 by (simp add: mutex_local_def)
        show "\<forall>th\<in>set (?ths[t := ?th\<lparr>pc := Suc (pc ?th), vars := vars ?th\<rparr>]). pc th = 2 \<longrightarrow>
            loaded (vars th) = heap (?s\<lparr>mutexes := (mutexes ?s)(0 := True)\<rparr>) 0"
          using ld p0 by (intro locals_after_update) simp_all
      qed (unfold adv, use p0 cs val False in \<open>simp_all\<close>)
    qed
  next
    case p1
    let ?l = "(vars ?th)\<lparr>loaded := heap ?s 0\<rparr>"
    have s: "sched_step ?body cfg t =
        \<lparr>threads = ?ths[t := ?th\<lparr>pc := Suc (pc ?th), vars := ?l\<rparr>], shared = ?s\<rparr>"
      by (rule sched_step_Next [OF t f refl]) (simp_all add: p1 mutex_body incr_load_def)
    show ?thesis
      unfolding s
    proof (rule inv_after)
      show "mutex_local (?th\<lparr>pc := Suc (pc ?th), vars := ?l\<rparr>)"
        using lt p1 by (simp add: mutex_local_def)
      show "\<forall>th\<in>set (?ths[t := ?th\<lparr>pc := Suc (pc ?th), vars := ?l\<rparr>]). pc th = 2 \<longrightarrow>
            loaded (vars th) = heap ?s 0"
        using ld p1 by (intro locals_after_update) simp_all
    qed (unfold adv, use p1 cs val in \<open>simp_all\<close>)
  next
    case p2
    let ?s' = "?s\<lparr>heap := (heap ?s)(0 := loaded (vars ?th) + 1)\<rparr>"
    let ?ths' = "?ths[t := ?th\<lparr>pc := Suc (pc ?th), vars := vars ?th\<rparr>]"
    have s: "sched_step ?body cfg t = \<lparr>threads = ?ths', shared = ?s'\<rparr>"
      by (rule sched_step_Next [OF t f refl]) (simp_all add: p2 mutex_body incr_store_def)
    have lv: "loaded (vars ?th) = heap ?s 0"
      using ld mem p2 by blast
    have small: "reached 3 ?ths < length ?ths"
      using strict chain p2 by (simp add: eval_nat_numeral)
    have u: "unat (heap ?s 0 + 1) = Suc (reached 3 ?ths)"
      using val small len by (simp add: unat_word_ariths)
    have eq: "reached (Suc 2) ?ths' = reached 2 ?ths'"
      unfolding adv using strict chain cs p2 by (simp add: eval_nat_numeral split: if_splits)
    show ?thesis
      unfolding s
    proof (rule inv_after)
      show "mutex_local (?th\<lparr>pc := Suc (pc ?th), vars := vars ?th\<rparr>)"
        using lt p2 by (simp add: mutex_local_def)
      show "\<forall>th\<in>set ?ths'. pc th = 2 \<longrightarrow> loaded (vars th) = heap ?s' 0"
        using no_goroutine_at [OF eq] by blast
      show "unat (heap ?s' 0) = reached 3 ?ths'"
        unfolding adv using u lv p2 by simp
    qed (unfold adv, use p2 cs in \<open>simp_all\<close>)
  next
    case p3
    let ?l = "(vars ?th)\<lparr>current := heap ?s 0\<rparr>"
    have s: "sched_step ?body cfg t =
        \<lparr>threads = ?ths[t := ?th\<lparr>pc := Suc (pc ?th), vars := ?l\<rparr>], shared = ?s\<rparr>"
      by (rule sched_step_Next [OF t f refl]) (simp_all add: p3 mutex_body read_current_def)
    have r34: "reached 3 ?ths = Suc (reached 4 ?ths)"
      using strict chain cs p3 by (simp add: eval_nat_numeral split: if_splits)
    show ?thesis
      unfolding s
    proof (rule inv_after)
      show "mutex_local (?th\<lparr>pc := Suc (pc ?th), vars := ?l\<rparr>)"
        using lt p3 by (simp add: mutex_local_def)
      show "\<forall>th\<in>set (?ths[t := ?th\<lparr>pc := Suc (pc ?th), vars := ?l\<rparr>]). pc th = 2 \<longrightarrow>
            loaded (vars th) = heap ?s 0"
        using ld p3 by (intro locals_after_update) simp_all
      show "unat (current ?l) = Suc (reached 4 ?ths)"
        using val r34 by simp
    qed (unfold adv, use p3 cs val in \<open>simp_all\<close>)
  next
    case p4
    have locked: "mutexes ?s 0"
      using strict chain cs p4 by (simp add: eval_nat_numeral split: if_splits)
    have s: "sched_step ?body cfg t =
        \<lparr>threads = ?ths[t := ?th\<lparr>pc := Suc (pc ?th), vars := vars ?th\<rparr>],
         shared = ?s\<lparr>mutexes := (mutexes ?s)(0 := False)\<rparr>\<rparr>"
      by (rule sched_step_Next [OF t f refl]) (simp_all add: p4 mutex_body mu_Unlock_def locked)
    show ?thesis
      unfolding s
    proof (rule inv_after)
      show "mutex_local (?th\<lparr>pc := Suc (pc ?th), vars := vars ?th\<rparr>)"
        using lt p4 by (simp add: mutex_local_def)
      show "\<forall>th\<in>set (?ths[t := ?th\<lparr>pc := Suc (pc ?th), vars := vars ?th\<rparr>]). pc th = 2 \<longrightarrow>
            loaded (vars th) = heap (?s\<lparr>mutexes := (mutexes ?s)(0 := False)\<rparr>) 0"
        using ld p4 by (intro locals_after_update) simp_all
    qed (unfold adv, use p4 cs val locked in \<open>simp_all\<close>)
  next
    case p5
    let ?l = "(vars ?th)\<lparr>message := Sprintf visits_format [current (vars ?th)]\<rparr>"
    have s: "sched_step ?body cfg t =
        \<lparr>threads = ?ths[t := ?th\<lparr>pc := Suc (pc ?th), vars := ?l\<rparr>], shared = ?s\<rparr>"
      by (rule sched_step_Next [OF t f refl]) (simp_all add: p5 mutex_body format_current_def)
    show ?thesis
      unfolding s
    proof (rule inv_after)
      show "mutex_local (?th\<lparr>pc := Suc (pc ?th), vars := ?l\<rparr>)"
        using lt p5 by (simp add: mutex_local_def)
      show "\<forall>th\<in>set (?ths[t := ?th\<lparr>pc := Suc (pc ?th), vars := ?l\<rparr>]). pc th = 2 \<longrightarrow>
            loaded (vars th) = heap ?s 0"
        using ld p5 by (intro locals_after_update) simp_all
    qed (unfold adv, use p5 cs val in \<open>simp_all\<close>)
  next
    case p6
    let ?l = "(vars ?th)\<lparr>w := WriteString (w (vars ?th)) (message (vars ?th))\<rparr>"
    have s: "sched_step ?body cfg t =
        \<lparr>threads = ?ths[t := ?th\<lparr>pc := Suc (pc ?th), vars := ?l\<rparr>], shared = ?s\<rparr>"
      by (rule sched_step_Next [OF t f refl]) (simp_all add: p6 mutex_body io_WriteString_def)
    show ?thesis
      unfolding s
    proof (rule inv_after)
      show "mutex_local (?th\<lparr>pc := Suc (pc ?th), vars := ?l\<rparr>)"
        using lt p6 by (simp add: mutex_local_def)
      show "\<forall>th\<in>set (?ths[t := ?th\<lparr>pc := Suc (pc ?th), vars := ?l\<rparr>]). pc th = 2 \<longrightarrow>
            loaded (vars th) = heap ?s 0"
        using ld p6 by (intro locals_after_update) simp_all
    qed (unfold adv, use p6 cs val in \<open>simp_all\<close>)
  qed
qed

lemma channel_body:
  "length (visitWithChannel (Some c) r) = 6"
  "visitWithChannel (Some c) r ! 0 = chan_recv (Some c)"
  "visitWithChannel (Some c) r ! Suc 0 = (\<lambda>l. incr_load (visits_v l) l)"
  "visitWithChannel (Some c) r ! 2 = (\<lambda>l. incr_store (visits_v l) l)"
  "visitWithChannel (Some c) r ! 3 = format_deref"
  "visitWithChannel (Some c) r ! 4 = (\<lambda>l. chan_send (Some c) (visits_v l) l)"
  "visitWithChannel (Some c) r ! 5 = io_WriteString message"
  by (simp_all add: visitWithChannel_def eval_nat_numeral)

lemma channel_inv_step:
  assumes inv: "channel_inv cfg"
  shows "channel_inv (sched_step (visitWithChannel (Some 0) r) cfg t)"
proof (cases "t < length (threads cfg) \<and> pc (threads cfg ! t) < 6")
  case False
  then have "sched_step (visitWithChannel (Some 0) r) cfg t = cfg"
    by (intro sched_step_finished) (auto simp: channel_body)
  then show ?thesis using inv by simp
next
  case True
  let ?ths = "threads cfg" and ?s = "shared cfg"
  let ?th = "threads cfg ! t"
  let ?f = "\<lambda>th. message (vars th)"
  let ?body = "visitWithChannel (Some 0) r"
  have t: "t < length ?ths" using True by simp
  have loc: "\<forall>th\<in>set ?ths. channel_local th"
    and len: "length ?ths < 2 ^ 64"
    and ch: "cap (chans ?s 0) = 1" "\<not> closed (chans ?s 0)"
    and cs: "reached 1 ?ths \<le> Suc (reached 5 ?ths)"
    and bf: "buf (chans ?s 0) = (if reached 1 ?ths = reached 5 ?ths then [Some 0] else [])"
    and val: "unat (heap ?s 0) = reached 3 ?ths"
    and tk: "tickets ?f 4 ?ths = mset (map visit_text [1..<Suc (reached 4 ?ths)])"
    and ld: "\<forall>th\<in>set ?ths. pc th = 2 \<longrightarrow> loaded (vars th) = heap ?s 0"
    using inv by (simp_all add: channel_inv_def)
  have mem: "?th \<in> set ?ths" using t by simp
  then have lt: "channel_local ?th" using loc by blast
  then have f: "fate ?th = None" by (simp add: channel_local_def)
  have strict: "reached (Suc (pc ?th)) ?ths < reached (pc ?th) ?ths"
    by (rule reached_strict [OF mem refl])
  note chain = reached_chain [of ?ths]
  have adv: "reached n (?ths[t := ?th\<lparr>pc := Suc (pc ?th), vars := l\<rparr>])
      = (if n = Suc (pc ?th) then Suc (reached n ?ths) else reached n ?ths)" for n l
    by (rule reached_advance [OF t refl])
  have tadv: "tickets ?f 4 (?ths[t := ?th\<lparr>pc := Suc (pc ?th), vars := l\<rparr>])
      = (if pc ?th = 3 then add_mset (message l) (tickets ?f 4 ?ths) else tickets ?f 4 ?ths)"
    if "4 \<le> pc ?th \<Longrightarrow> message l = message (vars ?th)" for l
    using tickets_advance [OF t refl, of 4 ?f l] that by (auto simp: eval_nat_numeral)
  have inv_after: "channel_inv \<lparr>threads = ?ths[t := ?th\<lparr>pc := Suc (pc ?th), vars := l\<rparr>], shared = s'\<rparr>"
    if "channel_local (?th\<lparr>pc := Suc (pc ?th), vars := l\<rparr>)"
      and "4 \<le> pc ?th \<Longrightarrow> message l = message (vars ?th)"
      and "cap (chans s' 0) = 1 \<and> \<not> closed (chans s' 0)"
      and "reached 1 (?ths[t := ?th\<lparr>pc := Suc (pc ?th), vars := l\<rparr>])
             \<le> Suc (reached 5 (?ths[t := ?th\<lparr>pc := Suc (pc ?th), vars := l\<rparr>]))"
      and "buf (chans s' 0) =
            (if reached 1 (?ths[t := ?th\<lparr>pc := Suc (pc ?th), vars := l\<rparr>])
                 = reached 5 (?ths[t := ?th\<lparr>pc := Suc (pc ?th), vars := l\<rparr>])
             then [Some 0] else [])"
      and "unat (heap s' 0) = reached 3 (?ths[t := ?th\<lparr>pc := Suc (pc ?th), vars := l\<rparr>])"
      and "pc ?th = 3 \<Longrightarrow> message l = visit_text (Suc (reached 4 ?ths))"
      and "\<forall>th\<in>set (?ths[t := ?th\<lparr>pc := Suc (pc ?th), vars := l\<rparr>]). pc th = 2 \<longrightarrow> loaded (vars th) = heap s' 0"
    for l s'
  proof -
    have "\<forall>th\<in>set (?ths[t := ?th\<lparr>pc := Suc (pc ?th), vars := l\<rparr>]). channel_local th"
      by (rule locals_after_update [OF loc that(1)])
    moreover have "tickets ?f 4 (?ths[t := ?th\<lparr>pc := Suc (pc ?th), vars := l\<rparr>])
        = mset (map visit_text [1..<Suc (reached 4 (?ths[t := ?th\<lparr>pc := Suc (pc ?th), vars := l\<rparr>]))])"
    proof (cases "pc ?th = 3")
      case True
      have "tickets ?f 4 (?ths[t := ?th\<lparr>pc := Suc (pc ?th), vars := l\<rparr>])
          = add_mset (visit_text (Suc (reached 4 ?ths))) (mset (map visit_text [1..<Suc (reached 4 ?ths)]))"
        using tadv [OF that(2)] tk that(7) True by simp
      moreover have "reached 4 (?ths[t := ?th\<lparr>pc := Suc (pc ?th), vars := l\<rparr>]) = Suc (reached 4 ?ths)"
        using adv [of 4 l] True by simp
      ultimately show ?thesis
        by simp
    next
      case False
      have "tickets ?f 4 (?ths[t := ?th\<lparr>pc := Suc (pc ?th), vars := l\<rparr>]) = tickets ?f 4 ?ths"
        using tadv [OF that(2)] False by simp
      moreover have "reached 4 (?ths[t := ?th\<lparr>pc := Suc (pc ?th), vars := l\<rparr>]) = reached 4 ?ths"
        using adv [of 4 l] False by simp
      ultimately show ?thesis
        using tk by simp
    qed
    ultimately show ?thesis
      unfolding channel_inv_def using len that(3,4,5,6,8) by simp
  qed
  have tok: "visits_v (vars ?th) = Some 0" if "1 \<le> pc ?th" "pc ?th \<le> 4"
    using lt that by (simp add: channel_local_def)
  consider (p0) "pc ?th = 0" | (p1) "pc ?th = 1" | (p2) "pc ?th = 2" | (p3) "pc ?th = 3"
    | (p4) "pc ?th = 4" | (p5) "pc ?th = 5"
    using True by linarith
  then show ?thesis
  proof cases
    case p0
    show ?thesis
    proof (cases "reached 1 ?ths = reached 5 ?ths")
      case False
      have "sched_step ?body cfg t = cfg"
        by (rule sched_step_Block) (use False in \<open>simp add: p0 channel_body chan_recv_def bf ch\<close>)
      then show ?thesis using inv by simp
    next
      case True
      let ?l = "(vars ?th)\<lparr>visits_v := Some 0\<rparr>"
      let ?s' = "?s\<lparr>chans := (chans ?s)(0 := (chans ?s 0)\<lparr>buf := []\<rparr>)\<rparr>"
      have s: "sched_step ?body cfg t =
        \<lparr>threads = ?ths[t := ?th\<lparr>pc := Suc (pc ?th), vars := ?l\<rparr>], shared = ?s'\<rparr>"
        by (rule sched_step_Next [OF t f refl]) (use True in \<open>simp_all add: p0 channel_body chan_recv_def bf\<close>)
      show ?thesis
        unfolding s
      proof (rule inv_after)
        show "channel_local (?th\<lparr>pc := Suc (pc ?th), vars := ?l\<rparr>)"
          using lt p0 by (simp add: channel_local_def)
        show "\<forall>th\<in>set (?ths[t := ?th\<lparr>pc := Suc (pc ?th), vars := ?l\<rparr>]). pc th = 2 \<longrightarrow>
            loaded (vars th) = heap ?s' 0"
          using ld p0 by (intro locals_after_update) simp_all
      qed (unfold adv, use p0 cs val True ch in \<open>simp_all\<close>)
    qed
  next
    case p1
    let ?l = "(vars ?th)\<lparr>loaded := heap ?s 0\<rparr>"
    have s: "sched_step ?body cfg t =
        \<lparr>threads = ?ths[t := ?th\<lparr>pc := Suc (pc ?th), vars := ?l\<rparr>], shared = ?s\<rparr>"
      by (rule sched_step_Next [OF t f refl]) (simp_all add: p1 channel_body incr_load_def tok)
    show ?thesis
      unfolding s
    proof (rule inv_after)
      show "channel_local (?th\<lparr>pc := Suc (pc ?th), vars := ?l\<rparr>)"
        using lt p1 by (simp add: channel_local_def)
      show "\<forall>th\<in>set (?ths[t := ?th\<lparr>pc := Suc (pc ?th), vars := ?l\<rparr>]). pc th = 2 \<longrightarrow>
            loaded (vars th) = heap ?s 0"
        using ld p1 by (intro locals_after_update) simp_all
    qed (unfold adv, use p1 cs val bf ch in \<open>simp_all\<close>)
  next
    case p2
    let ?s' = "?s\<lparr>heap := (heap ?s)(0 := loaded (vars ?th) + 1)\<rparr>"
    let ?ths' = "?ths[t := ?th\<lparr>pc := Suc (pc ?th), vars := vars ?th\<rparr>]"
    have s: "sched_step ?body cfg t = \<lparr>threads = ?ths', shared = ?s'\<rparr>"
      by (rule sched_step_Next [OF t f refl]) (simp_all add: p2 channel_body incr_store_def tok)
    have lv: "loaded (vars ?th) = heap ?s 0"
      using ld mem p2 by blast
    have small: "reached 3 ?ths < length ?ths"
      using strict chain p2 by (simp add: eval_nat_numeral)
    have u: "unat (heap ?s 0 + 1) = Suc (reached 3 ?ths)"
      using val small len by (simp add: unat_word_ariths)
    have eq: "reached (Suc 2) ?ths' = reached 2 ?ths'"
      unfolding adv using strict chain cs p2 by (simp add: eval_nat_numeral split: if_splits)
    show ?thesis
      unfolding s
    proof (rule inv_after)
      show "channel_local (?th\<lparr>pc := Suc (pc ?th), vars := vars ?th\<rparr>)"
        using lt p2 by (simp add: channel_local_def)
      show "\<forall>th\<in>set ?ths'. pc th = 2 \<longrightarrow> loaded (vars th) = heap ?s' 0"
        using no_goroutine_at [OF eq] by blast
      show "unat (heap ?s' 0) = reached 3 ?ths'"
        unfolding adv using u lv p2 by simp
    qed (unfold adv, use p2 cs bf ch in \<open>simp_all\<close>)
  next
    case p3
    let ?l = "(vars ?th)\<lparr>message := Sprintf visits_format [heap ?s 0]\<rparr>"
    have s: "sched_step ?body cfg t =
        \<lparr>threads = ?ths[t := ?th\<lparr>pc := Suc (pc ?th), vars := ?l\<rparr>], shared = ?s\<rparr>"
      by (rule sched_step_Next [OF t f refl]) (simp_all add: p3 channel_body format_deref_def tok)
    have r34: "reached 3 ?ths = Suc (reached 4 ?ths)"
      using strict chain cs p3 by (simp add: eval_nat_numeral split: if_splits)
    show ?thesis
      unfolding s
    proof (rule inv_after)
      show "channel_local (?th\<lparr>pc := Suc (pc ?th), vars := ?l\<rparr>)"
        using lt p3 by (simp add: channel_local_def)
      show "\<forall>th\<in>set (?ths[t := ?th\<lparr>pc := Suc (pc ?th), vars := ?l\<rparr>]). pc th = 2 \<longrightarrow>
            loaded (vars th) = heap ?s 0"
        using ld p3 by (intro locals_after_update) simp_all
      show "message ?l = visit_text (Suc (reached 4 ?ths))"
        using val r34 by (simp add: Sprintf_visits)
    qed (unfold adv, use p3 cs val bf ch in \<open>simp_all\<close>)
  next
    case p4
    have held: "reached 1 ?ths \<noteq> reached 5 ?ths"
      using strict chain p4 by (simp add: eval_nat_numeral)
    let ?s' = "?s\<lparr>chans := (chans ?s)(0 := (chans ?s 0)\<lparr>buf := buf (chans ?s 0) @ [visits_v (vars ?th)]\<rparr>)\<rparr>"
    have s: "sched_step ?body cfg t =
        \<lparr>threads = ?ths[t := ?th\<lparr>pc := Suc (pc ?th), vars := vars ?th\<rparr>], shared = ?s'\<rparr>"
      by (rule sched_step_Next [OF t f refl]) (use held in \<open>simp_all add: p4 channel_body chan_send_def ch bf\<close>)
    show ?thesis
      unfolding s
    proof (rule inv_after)
      show "channel_local (?th\<lparr>pc := Suc (pc ?th), vars := vars ?th\<rparr>)"
        using lt p4 by (simp add: channel_local_def)
      show "\<forall>th\<in>set (?ths[t := ?th\<lparr>pc := Suc (pc ?th), vars := vars ?th\<rparr>]). pc th = 2 \<longrightarrow>
            loaded (vars th) = heap ?s' 0"
        using ld p4 by (intro locals_after_update) simp_all
    qed (unfold adv, use p4 cs val bf ch held chain strict tok in \<open>simp_all add: eval_nat_numeral\<close>)
  next
    case p5
    let ?l = "(vars ?th)\<lparr>w := WriteString (w (vars ?th)) (message (vars ?th))\<rparr>"
    have s: "sched_step ?body cfg t =
        \<lparr>threads = ?ths[t := ?th\<lparr>pc := Suc (pc ?th), vars := ?l\<rparr>], shared = ?s\<rparr>"
      by (rule sched_step_Next [OF t f refl]) (simp_all add: p5 channel_body io_WriteString_def)
    show ?thesis
      unfolding s
    proof (rule inv_after)
      show "channel_local (?th\<lparr>pc := Suc (pc ?th), vars := ?l\<rparr>)"
        using lt p5 by (simp add: channel_local_def)
      show "\<forall>th\<in>set (?ths[t := ?th\<lparr>pc := Suc (pc ?th), vars := ?l\<rparr>]). pc th = 2 \<longrightarrow>
            loaded (vars th) = heap ?s 0"
        using ld p5 by (intro locals_after_update) simp_all
    qed (unfold adv, use p5 cs val bf ch in \<open>simp_all\<close>)
  qed
qed

subsection \<open>Executions, and how they end\<close>

lemma exec_Nil: "exec body [] cfg = cfg"
  by (simp add: exec_def)

lemma exec_Cons: "exec body (t # sched) cfg = exec body sched (sched_step body cfg t)"
  by (simp add: exec_def)

lemma exec_append: "exec body (xs @ ys) cfg = exec body ys (exec body xs cfg)"
  by (simp add: exec_def)

lemma exec_invariant:
  assumes "\<And>cfg t. I cfg \<Longrightarrow> I (sched_step body cfg t)" "I cfg"
  shows "I (exec body sched cfg)"
  using assms(2)
proof (induction sched arbitrary: cfg)
  case Nil
  then show ?case by (simp add: exec_Nil)
next
  case (Cons t sched)
  then show ?case
    by (simp add: exec_Cons assms(1))
qed

lemma total_pc_step:
  assumes "can_move body cfg t"
  shows "total_pc (sched_step body cfg t) = Suc (total_pc cfg)"
proof -
  have t: "t < length (threads cfg)" and f: "fate (threads cfg ! t) = None"
    and k: "pc (threads cfg ! t) < length body"
    using assms by (simp_all add: can_move_def)
  obtain ev l' s' where n: "(body ! pc (threads cfg ! t)) (vars (threads cfg ! t)) (shared cfg) = Next ev l' s'"
    using assms by (auto simp: can_move_def split: outcome.splits)
  have s: "sched_step body cfg t =
    \<lparr>threads = (threads cfg)[t := (threads cfg ! t)\<lparr>pc := Suc (pc (threads cfg ! t)), vars := l'\<rparr>],
     shared = s'\<rparr>"
    by (rule sched_step_Next [OF t f refl k n])
  have "sum_list ((map pc (threads cfg))[t := Suc (pc (threads cfg ! t))])
      = sum_list (map pc (threads cfg)) + Suc (pc (threads cfg ! t)) - map pc (threads cfg) ! t"
    using t by (intro sum_list_update) simp
  then show ?thesis
    using t by (simp add: s total_pc_def map_update)
qed

lemma total_pc_bound:
  assumes "\<forall>th\<in>set (threads cfg). pc th \<le> n"
  shows "total_pc cfg \<le> n * length (threads cfg)"
proof -
  have "sum_list (map pc ths) \<le> n * length ths" if "\<forall>th\<in>set ths. pc th \<le> n" for ths
    using that by (induction ths) auto
  then show ?thesis
    using assms by (simp add: total_pc_def)
qed

lemma exec_completes:
  assumes step: "\<And>cfg t. I cfg \<Longrightarrow> I (sched_step body cfg t)"
    and progress: "\<And>cfg. I cfg \<Longrightarrow> \<not> all_done body cfg \<Longrightarrow> \<exists>t. can_move body cfg t"
    and bound: "\<And>cfg. I cfg \<Longrightarrow> total_pc cfg \<le> B"
    and "I cfg"
  shows "\<exists>sched. all_done body (exec body sched cfg)"
  using assms(4)
proof (induction "B - total_pc cfg" arbitrary: cfg rule: less_induct)
  case less
  show ?case
  proof (cases "all_done body cfg")
    case True
    then have "all_done body (exec body [] cfg)"
      by (simp add: exec_Nil)
    then show ?thesis ..
  next
    case False
    then obtain t where t: "can_move body cfg t"
      using progress less.prems by blast
    let ?cfg' = "sched_step body cfg t"
    have i: "I ?cfg'"
      by (rule step [OF less.prems])
    have "total_pc ?cfg' = Suc (total_pc cfg)"
      by (rule total_pc_step [OF t])
    moreover have "total_pc ?cfg' \<le> B"
      by (rule bound [OF i])
    ultimately have "B - total_pc ?cfg' < B - total_pc cfg"
      by simp
    then obtain sched where "all_done body (exec body sched ?cfg')"
      using less.hyps i by blast
    then have "all_done body (exec body (t # sched) cfg)"
      by (simp add: exec_Cons)
    then show ?thesis ..
  qed
qed

lemma reached_between:
  assumes "th \<in> set ths" "n \<le> pc th" "pc th < n'"
  shows "reached n' ths < reached n ths"
proof -
  have "reached n' ths \<le> reached (Suc (pc th)) ths"
    using assms(3) by (intro reached_antitone) simp
  also have "\<dots> < reached (pc th) ths"
    by (rule reached_strict [OF assms(1) refl])
  also have "\<dots> \<le> reached n ths"
    using assms(2) by (rule reached_antitone)
  finally show ?thesis .
qed

lemma not_all_done:
  assumes "\<not> all_done body cfg" "\<forall>th\<in>set (threads cfg). fate th = None \<and> pc th \<le> length body"
  shows "\<exists>t<length (threads cfg). pc (threads cfg ! t) < length body"
proof -
  obtain th where "th \<in> set (threads cfg)" "pc th \<noteq> length body"
    using assms by (auto simp: all_done_def list_all_iff finished_goroutine_def)
  then have "th \<in> set (threads cfg)" "pc th < length body"
    using assms(2) by (auto simp: le_neq_implies_less)
  then show ?thesis
    by (metis in_set_conv_nth)
qed

lemma reached_replicate:
  "reached n (replicate G \<lparr>pc = 0, vars = l, fate = None\<rparr>) = (if n = 0 then G else 0)"
  by (simp add: reached_def)

lemma tickets_replicate:
  "0 < n \<Longrightarrow> tickets f n (replicate G \<lparr>pc = 0, vars = l, fate = None\<rparr>) = {#}"
  by (simp add: tickets_def)

lemma atomic_inv_spawn: "G < 2 ^ 64 \<Longrightarrow> atomic_inv (spawn G (test_world Atomic))"
  by (simp add: atomic_inv_def spawn_def reached_replicate tickets_replicate heap_test_world
      atomic_local_def new_locals_def)

lemma mutex_inv_spawn: "G < 2 ^ 64 \<Longrightarrow> mutex_inv (spawn G (test_world Mutex))"
  using idle_test_world [of Mutex]
  by (simp add: mutex_inv_def spawn_def reached_replicate tickets_replicate heap_test_world
      mutex_local_def new_locals_def)

lemma channel_inv_spawn: "G < 2 ^ 64 \<Longrightarrow> channel_inv (spawn G (test_world Channel))"
  using idle_test_world [of Channel]
  by (simp add: channel_inv_def spawn_def reached_replicate tickets_replicate heap_test_world
      channel_local_def new_locals_def)

subsection \<open>No deadlock\<close>

lemma atomic_progress:
  assumes inv: "atomic_inv cfg" and nd: "\<not> all_done (visitWithAtomic (Some 0) r) cfg"
  shows "\<exists>t<length (threads cfg). can_move (visitWithAtomic (Some 0) r) cfg t"
proof -
  have loc: "\<forall>th\<in>set (threads cfg). atomic_local th"
    using inv by (simp add: atomic_inv_def)
  then have "\<forall>th\<in>set (threads cfg). fate th = None \<and> pc th \<le> length (visitWithAtomic (Some 0) r)"
    by (simp add: atomic_local_def atomic_body)
  then obtain t where t: "t < length (threads cfg)" and k: "pc (threads cfg ! t) < 3"
    using not_all_done [OF nd] by (auto simp: atomic_body)
  have f: "fate (threads cfg ! t) = None"
    using loc t by (simp add: atomic_local_def)
  consider "pc (threads cfg ! t) = 0" | "pc (threads cfg ! t) = Suc 0" | "pc (threads cfg ! t) = 2"
    using k by linarith
  then have "can_move (visitWithAtomic (Some 0) r) cfg t"
    using t f
    by cases
      (simp_all add: can_move_def atomic_body AddUint64_def format_current_def io_WriteString_def)
  then show ?thesis using t by blast
qed

lemma mutex_progress:
  assumes inv: "mutex_inv cfg" and nd: "\<not> all_done (visitWithMutex (Some 0) (Some 0) r) cfg"
  shows "\<exists>t<length (threads cfg). can_move (visitWithMutex (Some 0) (Some 0) r) cfg t"
proof -
  let ?ths = "threads cfg" and ?s = "shared cfg"
  let ?body = "visitWithMutex (Some 0) (Some 0) r"
  have loc: "\<forall>th\<in>set ?ths. mutex_local th"
    and cs: "reached 1 ?ths = reached 5 ?ths + (if mutexes ?s 0 then 1 else 0)"
    using inv by (simp_all add: mutex_inv_def)
  have fates: "fate (?ths ! t) = None" if "t < length ?ths" for t
    using loc that by (simp add: mutex_local_def)
  show ?thesis
  proof (cases "mutexes ?s 0")
    case True
    then have "reached 5 ?ths < reached 1 ?ths"
      using cs by simp
    then obtain t where t: "t < length ?ths" and k: "1 \<le> pc (?ths ! t)" "pc (?ths ! t) < 5"
      using reached_gap by blast
    consider "pc (?ths ! t) = Suc 0" | "pc (?ths ! t) = 2" | "pc (?ths ! t) = 3" | "pc (?ths ! t) = 4"
      using k by linarith
    then have "can_move ?body cfg t"
      using t fates [OF t]
      by cases (simp_all add: can_move_def mutex_body incr_load_def incr_store_def read_current_def mu_Unlock_def True)
    then show ?thesis using t by blast
  next
    case False
    have "\<forall>th\<in>set ?ths. fate th = None \<and> pc th \<le> length ?body"
      using loc by (simp add: mutex_local_def mutex_body)
    then obtain t where t: "t < length ?ths" and k: "pc (?ths ! t) < 7"
      using not_all_done [OF nd] by (auto simp: mutex_body)
    have "\<not> (1 \<le> pc (?ths ! t) \<and> pc (?ths ! t) < 5)"
      using reached_between [of "?ths ! t" ?ths 1 5] t cs False by auto
    then consider "pc (?ths ! t) = 0" | "pc (?ths ! t) = 5" | "pc (?ths ! t) = 6"
      using k by linarith
    then have "can_move ?body cfg t"
      using t fates [OF t]
      by cases (simp_all add: can_move_def mutex_body mu_Lock_def format_current_def io_WriteString_def False)
    then show ?thesis using t by blast
  qed
qed

lemma channel_progress:
  assumes inv: "channel_inv cfg" and nd: "\<not> all_done (visitWithChannel (Some 0) r) cfg"
  shows "\<exists>t<length (threads cfg). can_move (visitWithChannel (Some 0) r) cfg t"
proof -
  let ?ths = "threads cfg" and ?s = "shared cfg"
  let ?body = "visitWithChannel (Some 0) r"
  have loc: "\<forall>th\<in>set ?ths. channel_local th"
    and ch: "cap (chans ?s 0) = 1" "\<not> closed (chans ?s 0)"
    and bf: "buf (chans ?s 0) = (if reached 1 ?ths = reached 5 ?ths then [Some 0] else [])"
    using inv by (simp_all add: channel_inv_def)
  have fates: "fate (?ths ! t) = None" if "t < length ?ths" for t
    using loc that by (simp add: channel_local_def)
  have tok: "visits_v (vars (?ths ! t)) = Some 0" if "t < length ?ths" "1 \<le> pc (?ths ! t)" "pc (?ths ! t) \<le> 4" for t
    using loc that by (simp add: channel_local_def)
  have chain: "reached 5 ?ths \<le> reached 1 ?ths"
    by (simp add: reached_antitone)
  show ?thesis
  proof (cases "reached 1 ?ths = reached 5 ?ths")
    case False
    then have "reached 5 ?ths < reached 1 ?ths"
      using chain by simp
    then obtain t where t: "t < length ?ths" and k: "1 \<le> pc (?ths ! t)" "pc (?ths ! t) < 5"
      using reached_gap by blast
    have b: "buf (chans ?s 0) = []"
      using bf False by simp
    consider "pc (?ths ! t) = Suc 0" | "pc (?ths ! t) = 2" | "pc (?ths ! t) = 3" | "pc (?ths ! t) = 4"
      using k by linarith
    then have "can_move ?body cfg t"
      using t fates [OF t]
      by cases (simp_all add: can_move_def channel_body incr_load_def incr_store_def format_deref_def chan_send_def
            tok ch b)
    then show ?thesis using t by blast
  next
    case True
    have "\<forall>th\<in>set ?ths. fate th = None \<and> pc th \<le> length ?body"
      using loc by (simp add: channel_local_def channel_body)
    then obtain t where t: "t < length ?ths" and k: "pc (?ths ! t) < 6"
      using not_all_done [OF nd] by (auto simp: channel_body)
    have b: "buf (chans ?s 0) = [Some 0]"
      using bf True by simp
    have "\<not> (1 \<le> pc (?ths ! t) \<and> pc (?ths ! t) < 5)"
      using reached_between [of "?ths ! t" ?ths 1 5] t True by auto
    then consider "pc (?ths ! t) = 0" | "pc (?ths ! t) = 5"
      using k by linarith
    then have "can_move ?body cfg t"
      using t fates [OF t]
      by cases (simp_all add: can_move_def channel_body chan_recv_def io_WriteString_def b)
    then show ?thesis using t by blast
  qed
qed

subsection \<open>When all goroutines have finished\<close>

lemma all_done_pcs:
  "all_done body cfg \<Longrightarrow> \<forall>th\<in>set (threads cfg). pc th = length body"
  by (simp add: all_done_def list_all_iff finished_goroutine_def)

lemma bodies_from_tickets:
  assumes "\<forall>th\<in>set (threads cfg). Body (w (vars th)) = g (f th)"
    and "mset (map f (threads cfg)) = mset xs"
  shows "mset (bodies cfg) = mset (map g xs)"
proof -
  have "bodies cfg = map g (map f (threads cfg))"
    using assms(1) by (simp add: bodies_def)
  then have "mset (bodies cfg) = image_mset g (mset (map f (threads cfg)))"
    by (simp add: multiset.map_comp)
  then show ?thesis
    using assms(2) by simp
qed

lemma atomic_final:
  assumes inv: "atomic_inv cfg" and d: "all_done (visitWithAtomic (Some 0) r) cfg"
  shows "unat (heap (shared cfg) 0) = length (threads cfg) \<and>
     mset (bodies cfg) = mset (map visit_text [1..<Suc (length (threads cfg))])"
proof -
  let ?ths = "threads cfg"
  let ?f = "\<lambda>th. unat (current (vars th))"
  have pcs: "\<forall>th\<in>set ?ths. pc th = 3"
    using all_done_pcs [OF d] by (simp add: atomic_body)
  have r: "reached 1 ?ths = length ?ths"
    by (rule reached_all) (use pcs in simp)
  have v: "unat (heap (shared cfg) 0) = length ?ths"
    using inv r by (simp add: atomic_inv_def)
  have "tickets ?f 1 ?ths = mset (map ?f ?ths)"
    by (rule tickets_all) (use pcs in simp)
  then have tk: "mset (map ?f ?ths) = mset [1..<Suc (length ?ths)]"
    using inv r by (simp add: atomic_inv_def)
  have "\<forall>th\<in>set ?ths. Body (w (vars th)) = visit_text (?f th)"
    using inv pcs by (simp add: atomic_inv_def atomic_local_def WriteString_NewRecorder Sprintf_visits)
  then have "mset (bodies cfg) = mset (map visit_text [1..<Suc (length ?ths)])"
    using tk by (rule bodies_from_tickets)
  then show ?thesis
    using v by simp
qed

lemma mutex_final:
  assumes inv: "mutex_inv cfg" and d: "all_done (visitWithMutex (Some 0) (Some 0) r) cfg"
  shows "unat (heap (shared cfg) 0) = length (threads cfg) \<and>
     mset (bodies cfg) = mset (map visit_text [1..<Suc (length (threads cfg))])"
proof -
  let ?ths = "threads cfg"
  let ?f = "\<lambda>th. unat (current (vars th))"
  have pcs: "\<forall>th\<in>set ?ths. pc th = 7"
    using all_done_pcs [OF d] by (simp add: mutex_body)
  have r: "reached 3 ?ths = length ?ths" "reached 4 ?ths = length ?ths"
    by (rule reached_all, use pcs in simp)+
  have v: "unat (heap (shared cfg) 0) = length ?ths"
    using inv r by (simp add: mutex_inv_def)
  have "tickets ?f 4 ?ths = mset (map ?f ?ths)"
    by (rule tickets_all) (use pcs in simp)
  then have tk: "mset (map ?f ?ths) = mset [1..<Suc (length ?ths)]"
    using inv r by (simp add: mutex_inv_def)
  have "\<forall>th\<in>set ?ths. Body (w (vars th)) = visit_text (?f th)"
    using inv pcs by (simp add: mutex_inv_def mutex_local_def WriteString_NewRecorder Sprintf_visits)
  then have "mset (bodies cfg) = mset (map visit_text [1..<Suc (length ?ths)])"
    using tk by (rule bodies_from_tickets)
  then show ?thesis
    using v by simp
qed

lemma channel_final:
  assumes inv: "channel_inv cfg" and d: "all_done (visitWithChannel (Some 0) r) cfg"
  shows "unat (heap (shared cfg) 0) = length (threads cfg) \<and>
     mset (bodies cfg) = mset (map visit_text [1..<Suc (length (threads cfg))])"
proof -
  let ?ths = "threads cfg"
  let ?f = "\<lambda>th. message (vars th)"
  have pcs: "\<forall>th\<in>set ?ths. pc th = 6"
    using all_done_pcs [OF d] by (simp add: channel_body)
  have r: "reached 3 ?ths = length ?ths" "reached 4 ?ths = length ?ths"
    by (rule reached_all, use pcs in simp)+
  have v: "unat (heap (shared cfg) 0) = length ?ths"
    using inv r by (simp add: channel_inv_def)
  have "tickets ?f 4 ?ths = mset (map ?f ?ths)"
    by (rule tickets_all) (use pcs in simp)
  then have tk: "mset (map ?f ?ths) = mset (map visit_text [1..<Suc (length ?ths)])"
    using inv r by (simp add: channel_inv_def)
  have "\<forall>th\<in>set ?ths. Body (w (vars th)) = id (?f th)"
    using inv pcs by (simp add: channel_inv_def channel_local_def WriteString_NewRecorder)
  then have "mset (bodies cfg) = mset (map id (map visit_text [1..<Suc (length ?ths)]))"
    using tk by (rule bodies_from_tickets)
  then show ?thesis
    using v by simp
qed

lemma visits_inv_step: "visits_inv strat cfg \<Longrightarrow> visits_inv strat (sched_step (visit strat 0 0 0 r) cfg t)"
  by (cases strat) (simp_all add: mutex_inv_step atomic_inv_step channel_inv_step)

lemma visits_inv_spawn: "G < 2 ^ 64 \<Longrightarrow> visits_inv strat (spawn G (test_world strat))"
  by (cases strat) (simp_all add: mutex_inv_spawn atomic_inv_spawn channel_inv_spawn)

lemma visits_inv_progress:
  "visits_inv strat cfg \<Longrightarrow> \<not> all_done (visit strat 0 0 0 r) cfg \<Longrightarrow>
   \<exists>t<length (threads cfg). can_move (visit strat 0 0 0 r) cfg t"
  by (cases strat) (simp_all add: mutex_progress atomic_progress channel_progress)

lemma visits_inv_final:
  "visits_inv strat cfg \<Longrightarrow> all_done (visit strat 0 0 0 r) cfg \<Longrightarrow>
   unat (heap (shared cfg) 0) = length (threads cfg) \<and>
   mset (bodies cfg) = mset (map visit_text [1..<Suc (length (threads cfg))])"
  by (cases strat) (simp_all add: mutex_final atomic_final channel_final)

lemma visits_inv_fates:
  "visits_inv strat cfg \<Longrightarrow> \<forall>th\<in>set (threads cfg). fate th = None \<and> pc th \<le> 7"
  by (cases strat)
     (auto simp: mutex_inv_def atomic_inv_def channel_inv_def mutex_local_def atomic_local_def
        channel_local_def)

lemma length_sched_step: "length (threads (sched_step body cfg t)) = length (threads cfg)"
  by (simp add: sched_step_def Let_def split: outcome.splits)

lemma length_exec: "length (threads (exec body sched cfg)) = length (threads cfg)"
  by (rule exec_invariant [where I = "\<lambda>c. length (threads c) = length (threads cfg)"])
     (simp_all add: length_sched_step)

text \<open>
  Claim C3. For each of the three strategies, on the construction of the tests, with \<open>G\<close>
  goroutines calling the handler concurrently (any \<open>G\<close> below \<open>2^64\<close>, so 100 and 1000 in
  particular) and under every schedule: no goroutine panics; once all goroutines have
  finished, the counter is exactly \<open>G\<close> and the responses, as a multiset, are exactly the
  visit texts of \<open>1, 2, ..., G\<close>, each once (no duplicates, no gaps); as long as some
  goroutine has not finished, some goroutine can move (no deadlock); and every execution
  can be continued to one in which all goroutines have finished.
\<close>

theorem concurrent_visits:
  assumes "G < 2 ^ 64"
  shows "length (threads (exec (visit strat 0 0 0 r) sched (spawn G (test_world strat)))) = G \<and>
    (\<forall>th\<in>set (threads (exec (visit strat 0 0 0 r) sched (spawn G (test_world strat)))). fate th = None) \<and>
    (all_done (visit strat 0 0 0 r) (exec (visit strat 0 0 0 r) sched (spawn G (test_world strat))) \<longrightarrow>
       unat (heap (shared (exec (visit strat 0 0 0 r) sched (spawn G (test_world strat)))) 0) = G \<and>
       mset (bodies (exec (visit strat 0 0 0 r) sched (spawn G (test_world strat))))
         = mset (map visit_text [1..<Suc G])) \<and>
    (\<not> all_done (visit strat 0 0 0 r) (exec (visit strat 0 0 0 r) sched (spawn G (test_world strat))) \<longrightarrow>
       (\<exists>t<G. can_move (visit strat 0 0 0 r) (exec (visit strat 0 0 0 r) sched (spawn G (test_world strat))) t)) \<and>
    (\<exists>rest. all_done (visit strat 0 0 0 r)
       (exec (visit strat 0 0 0 r) (sched @ rest) (spawn G (test_world strat))))"
proof -
  let ?body = "visit strat 0 0 0 r"
  let ?cfg = "exec ?body sched (spawn G (test_world strat))"
  have step: "visits_inv strat c \<Longrightarrow> visits_inv strat (sched_step ?body c t)" for c t
    by (rule visits_inv_step)
  have inv: "visits_inv strat ?cfg"
    by (rule exec_invariant [of "visits_inv strat", OF step visits_inv_spawn [OF assms]])
  have len: "length (threads ?cfg) = G"
    by (simp add: length_exec spawn_def)
  have fates: "\<forall>th\<in>set (threads ?cfg). fate th = None"
    using visits_inv_fates [OF inv] by blast
  have fin: "unat (heap (shared ?cfg) 0) = G \<and> mset (bodies ?cfg) = mset (map visit_text [1..<Suc G])"
    if "all_done ?body ?cfg"
    using visits_inv_final [OF inv that] len by simp
  have prog: "\<exists>t<G. can_move ?body ?cfg t" if "\<not> all_done ?body ?cfg"
    using visits_inv_progress [OF inv that] len by simp
  have "\<exists>rest. all_done ?body (exec ?body rest ?cfg)"
  proof (rule exec_completes [of "\<lambda>c. visits_inv strat c \<and> length (threads c) = G" ?body "7 * G"])
    show "visits_inv strat (sched_step ?body c t) \<and> length (threads (sched_step ?body c t)) = G"
      if "visits_inv strat c \<and> length (threads c) = G" for c t
      using that by (simp add: visits_inv_step length_sched_step)
    show "\<exists>t. can_move ?body c t"
      if "visits_inv strat c \<and> length (threads c) = G" "\<not> all_done ?body c" for c
      using visits_inv_progress [of strat c r] that by blast
    show "visits_inv strat ?cfg \<and> length (threads ?cfg) = G"
      using inv len by simp
    show "total_pc c \<le> 7 * G" if "visits_inv strat c \<and> length (threads c) = G" for c
      using total_pc_bound [of c 7] visits_inv_fates [of strat c] that by auto
  qed
  then have comp: "\<exists>rest. all_done ?body (exec ?body (sched @ rest) (spawn G (test_world strat)))"
    by (simp add: exec_append)
  show ?thesis
    using len fates fin prog comp by blast
qed

theorem concurrent_visits_witness:
  "(3::nat) < 2 ^ 64 \<and>
   all_done (visit Mutex 0 0 0 (GET ''/visit-with-mutex''))
     (exec (visit Mutex 0 0 0 (GET ''/visit-with-mutex''))
        [0, 1, 0, 2, 0, 0, 1, 0, 1, 2, 0, 0, 1, 1, 1, 1, 1, 1, 2, 2, 2, 2, 2, 2, 2]
        (spawn 3 (test_world Mutex))) \<and>
   unat (heap (shared
     (exec (visit Mutex 0 0 0 (GET ''/visit-with-mutex''))
        [0, 1, 0, 2, 0, 0, 1, 0, 1, 2, 0, 0, 1, 1, 1, 1, 1, 1, 2, 2, 2, 2, 2, 2, 2]
        (spawn 3 (test_world Mutex)))) 0) = 3 \<and>
   mset (bodies
     (exec (visit Mutex 0 0 0 (GET ''/visit-with-mutex''))
        [0, 1, 0, 2, 0, 0, 1, 0, 1, 2, 0, 0, 1, 1, 1, 1, 1, 1, 2, 2, 2, 2, 2, 2, 2]
        (spawn 3 (test_world Mutex))))
     = {#visit_text 1, visit_text 2, visit_text 3#} \<and>
   \<not> all_done (visit Channel 0 0 0 (GET ''/visit-with-channel''))
     (exec (visit Channel 0 0 0 (GET ''/visit-with-channel'')) [1, 0, 1, 2]
        (spawn 3 (test_world Channel))) \<and>
   \<not> can_move (visit Channel 0 0 0 (GET ''/visit-with-channel''))
     (exec (visit Channel 0 0 0 (GET ''/visit-with-channel'')) [1, 0, 1, 2]
        (spawn 3 (test_world Channel))) 0 \<and>
   (\<exists>t. t < 3 \<and> can_move (visit Channel 0 0 0 (GET ''/visit-with-channel''))
     (exec (visit Channel 0 0 0 (GET ''/visit-with-channel'')) [1, 0, 1, 2]
        (spawn 3 (test_world Channel))) t)"
proof -
  have b: "(3::nat) < 2 ^ 64"
    by simp
  have d: "all_done (visit Mutex 0 0 0 (GET ''/visit-with-mutex''))
     (exec (visit Mutex 0 0 0 (GET ''/visit-with-mutex''))
        [0, 1, 0, 2, 0, 0, 1, 0, 1, 2, 0, 0, 1, 1, 1, 1, 1, 1, 2, 2, 2, 2, 2, 2, 2]
        (spawn 3 (test_world Mutex)))"
    by code_simp
  have n: "\<not> all_done (visit Channel 0 0 0 (GET ''/visit-with-channel''))
     (exec (visit Channel 0 0 0 (GET ''/visit-with-channel'')) [1, 0, 1, 2]
        (spawn 3 (test_world Channel)))"
    by code_simp
  have w: "\<not> can_move (visit Channel 0 0 0 (GET ''/visit-with-channel''))
     (exec (visit Channel 0 0 0 (GET ''/visit-with-channel'')) [1, 0, 1, 2]
        (spawn 3 (test_world Channel))) 0"
    by code_simp
  have u: "[1..<Suc 3] = [1, 2, 3]"
    by (simp add: upt_conv_Cons)
  show ?thesis
    using b d n w
      concurrent_visits [OF b, of Mutex "GET ''/visit-with-mutex''"
        "[0, 1, 0, 2, 0, 0, 1, 0, 1, 2, 0, 0, 1, 1, 1, 1, 1, 1, 2, 2, 2, 2, 2, 2, 2]"]
      concurrent_visits [OF b, of Channel "GET ''/visit-with-channel''" "[1, 0, 1, 2]"]
    unfolding u by simp
qed

end
